theory Spec2Isabelle
  imports Main "HOL-Library.Word" "HOL-Library.Monad_Syntax" "HOL-Library.Multiset"
begin

section \<open>The AVL tree with order statistics\<close>

text \<open>
  The class \<open>AVLTree<T, Comparator>\<close> stores its elements in nodes that own their two
  children through raw pointers; no node is shared. A pointer \<open>Node *\<close> is therefore a
  value of the type \<open>'a node\<close> (\<open>Null\<close> or \<open>Ptr\<close> of a struct), and the struct itself is
  the type \<open>'a Node\<close> with the five fields in the order of the source.
  \<open>size_t\<close> is a 64-bit word and \<open>unsigned char\<close> an 8-bit word: both wrap around.
  A result of type \<open>option\<close> is \<open>None\<close> where the program stops on a failed \<open>assert\<close>
  (assertions are compiled in) or dereferences \<open>nullptr\<close>. \<open>new\<close> is taken to
  succeed, and deleting a node has no counterpart in the model: the node is no longer
  part of the value.
\<close>

type_synonym size_t = "64 word"
type_synonym uchar = "8 word"

datatype 'a node = Null | Ptr "'a Node"
  and 'a Node = Node (data: 'a) (elements_subtree: size_t) (depth: uchar)
                     (left: "'a node") (right: "'a node")

definition set_elements_subtree :: "'a Node \<Rightarrow> size_t \<Rightarrow> 'a Node" where
  "set_elements_subtree n e = Node (data n) e (depth n) (left n) (right n)"

definition set_depth :: "'a Node \<Rightarrow> uchar \<Rightarrow> 'a Node" where
  "set_depth n h = Node (data n) (elements_subtree n) h (left n) (right n)"

definition set_left :: "'a Node \<Rightarrow> 'a node \<Rightarrow> 'a Node" where
  "set_left n p = Node (data n) (elements_subtree n) (depth n) p (right n)"

definition set_right :: "'a Node \<Rightarrow> 'a node \<Rightarrow> 'a Node" where
  "set_right n p = Node (data n) (elements_subtree n) (depth n) (left n) p"

subsection \<open>Member functions of the struct\<close>

text \<open>\<open>(p ? p->depth : 0)\<close>, as it occurs in \<open>balance\<close>, \<open>update_depth\<close> and
  \<open>remove_rec\<close>.\<close>

definition depth_or_0 :: "'a node \<Rightarrow> uchar" where
  "depth_or_0 p = (case p of Null \<Rightarrow> 0 | Ptr n \<Rightarrow> depth n)"

text \<open>The two operands are promoted to \<open>int\<close> before the subtraction.\<close>

definition balance :: "'a Node \<Rightarrow> int" where
  "balance n = uint (depth_or_0 (right n)) - uint (depth_or_0 (left n))"

text \<open>The sum is computed in \<open>int\<close> and stored into an \<open>unsigned char\<close>:
  it wraps around at 256.\<close>

definition update_depth :: "'a Node \<Rightarrow> 'a Node" where
  "update_depth n =
     (let depth_left = depth_or_0 (left n);
          depth_right = depth_or_0 (right n)
      in set_depth n ((if depth_left > depth_right then depth_left else depth_right) + 1))"

definition in_left_subtree :: "'a Node \<Rightarrow> size_t" where
  "in_left_subtree n = (case left n of Null \<Rightarrow> 0 | Ptr l \<Rightarrow> elements_subtree l + 1)"

definition in_right_subtree :: "'a Node \<Rightarrow> size_t" where
  "in_right_subtree n = (case right n of Null \<Rightarrow> 0 | Ptr r \<Rightarrow> elements_subtree r + 1)"

definition update_elements_subtree :: "'a Node \<Rightarrow> 'a Node" where
  "update_elements_subtree n = set_elements_subtree n (in_left_subtree n + in_right_subtree n)"

subsection \<open>Rotations and rebalancing\<close>

text \<open>
  In \<open>rotate_right\<close> the pointer \<open>left->right\<close> is set to \<open>node\<close> before \<open>node\<close> is
  updated, so every later update of \<open>node\<close> is seen through \<open>left\<close>: the model stores the
  current \<open>node\<close> into \<open>left\<close> again before each step that reads it.
\<close>

definition rotate_right :: "'a node \<Rightarrow> 'a node option" where
  "rotate_right p =
     (case p of Null \<Rightarrow> None
      | Ptr node \<Rightarrow>
         (case left node of Null \<Rightarrow> None
          | Ptr lft \<Rightarrow>
             (let node = set_left node (right lft);
                  node = update_depth node;
                  lft = update_depth (set_right lft (Ptr node));
                  node = update_elements_subtree node;
                  lft = update_elements_subtree (set_right lft (Ptr node))
              in Some (Ptr lft))))"

definition rotate_left :: "'a node \<Rightarrow> 'a node option" where
  "rotate_left p =
     (case p of Null \<Rightarrow> None
      | Ptr node \<Rightarrow>
         (case right node of Null \<Rightarrow> None
          | Ptr rgt \<Rightarrow>
             (let node = set_right node (left rgt);
                  node = update_depth node;
                  rgt = update_depth (set_left rgt (Ptr node));
                  node = update_elements_subtree node;
                  rgt = update_elements_subtree (set_left rgt (Ptr node))
              in Some (Ptr rgt))))"

definition balance_node :: "'a node \<Rightarrow> 'a node option" where
  "balance_node p =
     (case p of Null \<Rightarrow> None
      | Ptr node \<Rightarrow>
         (let node = update_depth node in
          if balance node = 2 then
            (case right node of Null \<Rightarrow> None
             | Ptr r \<Rightarrow>
                 do {
                   node \<leftarrow> (if balance r < 0
                            then do { r' \<leftarrow> rotate_right (right node); Some (set_right node r') }
                            else Some node);
                   rotate_left (Ptr node)
                 })
          else if balance node = - 2 then
            (case left node of Null \<Rightarrow> None
             | Ptr l \<Rightarrow>
                 do {
                   node \<leftarrow> (if balance l > 0
                            then do { l' \<leftarrow> rotate_left (left node); Some (set_left node l') }
                            else Some node);
                   rotate_right (Ptr node)
                 })
          else Some (Ptr (update_elements_subtree node))))"

subsection \<open>Insertion\<close>

text \<open>\<open>insert_rec\<close> returns the new root of the subtree and the updated \<open>*pos_ptr\<close>.\<close>

fun insert_rec :: "('a \<Rightarrow> 'a \<Rightarrow> bool) \<Rightarrow> 'a node \<Rightarrow> 'a \<Rightarrow> size_t \<Rightarrow> ('a node \<times> size_t) option" where
  "insert_rec cmp Null new_element pos = Some (Ptr (Node new_element 0 1 Null Null), pos)"
| "insert_rec cmp (Ptr (Node d e h l r)) new_element pos =
     (if cmp new_element d then
        do {
          (l', pos') \<leftarrow> insert_rec cmp l new_element pos;
          node' \<leftarrow> balance_node (Ptr (Node d (e + 1) h l' r));
          Some (node', pos')
        }
      else
        do {
          (r', pos') \<leftarrow> insert_rec cmp r new_element (pos + (in_left_subtree (Node d e h l r) + 1));
          node' \<leftarrow> balance_node (Ptr (Node d (e + 1) h l r'));
          Some (node', pos')
        })"

subsection \<open>Rank lookup\<close>

text \<open>\<open>get_Kth_rec\<close> returns the content of \<open>*value\<close>: it is left as it was when the
  descent ends at \<open>nullptr\<close>.\<close>

fun get_Kth_rec :: "'a node \<Rightarrow> size_t \<Rightarrow> size_t \<Rightarrow> 'a \<Rightarrow> 'a" where
  "get_Kth_rec Null find_pos pos val = val"
| "get_Kth_rec (Ptr (Node d e h l r)) find_pos pos val =
     (if pos + in_left_subtree (Node d e h l r) = find_pos then d
      else if pos + in_left_subtree (Node d e h l r) < find_pos
           then get_Kth_rec r find_pos (pos + in_left_subtree (Node d e h l r) + 1) val
           else get_Kth_rec l find_pos pos val)"

subsection \<open>Removal\<close>

text \<open>\<open>remove_min\<close> and \<open>remove_max\<close> return the new root of the subtree and the value
  written to \<open>*save_data\<close>.\<close>

fun remove_min :: "'a node \<Rightarrow> ('a node \<times> 'a) option" where
  "remove_min Null = None"
| "remove_min (Ptr (Node d e h l r)) =
     (if l = Null then Some (r, d)
      else do {
        (l', save_data) \<leftarrow> remove_min l;
        node' \<leftarrow> balance_node (Ptr (Node d (e - 1) h l' r));
        Some (node', save_data)
      })"

fun remove_max :: "'a node \<Rightarrow> ('a node \<times> 'a) option" where
  "remove_max Null = None"
| "remove_max (Ptr (Node d e h l r)) =
     (if r = Null then Some (l, d)
      else do {
        (r', save_data) \<leftarrow> remove_max r;
        node' \<leftarrow> balance_node (Ptr (Node d (e - 1) h l r'));
        Some (node', save_data)
      })"

text \<open>
  \<open>remove_rec\<close> takes the contents of \<open>*value\<close> and of the reference \<open>was_deleted\<close> and
  returns the new root together with both. No statement of the source assigns
  \<open>was_deleted\<close>; it is only read.
\<close>

fun remove_rec :: "('a \<Rightarrow> 'a \<Rightarrow> bool) \<Rightarrow> 'a node \<Rightarrow> 'a \<Rightarrow> 'a \<Rightarrow> bool \<Rightarrow> ('a node \<times> 'a \<times> bool) option" where
  "remove_rec cmp Null key val was_deleted = Some (Null, val, was_deleted)"
| "remove_rec cmp (Ptr (Node d e h l r)) key val was_deleted =
     (if cmp d key then
        do {
          (r', val', was_deleted') \<leftarrow> remove_rec cmp r key val was_deleted;
          node' \<leftarrow> balance_node (Ptr (Node d (if was_deleted' then e - 1 else e) h l r'));
          Some (node', val', was_deleted')
        }
      else if cmp key d then
        do {
          (l', val', was_deleted') \<leftarrow> remove_rec cmp l key val was_deleted;
          node' \<leftarrow> balance_node (Ptr (Node d (if was_deleted' then e - 1 else e) h l' r));
          Some (node', val', was_deleted')
        }
      else
        (let val' = d;
             right_depth = depth_or_0 r;
             left_depth = depth_or_0 l
         in if right_depth = 0 \<and> left_depth = 0 then Some (Null, val', was_deleted)
            else if right_depth \<ge> left_depth then
              do {
                (r', d') \<leftarrow> remove_min r;
                node' \<leftarrow> balance_node (Ptr (Node d' e h l r'));
                Some (node', val', was_deleted)
              }
            else
              do {
                (l', d') \<leftarrow> remove_max l;
                node' \<leftarrow> balance_node (Ptr (Node d' e h l' r));
                Some (node', val', was_deleted)
              }))"

subsection \<open>The container\<close>

text \<open>
  The member \<open>cmp\<close> is a default-constructed comparison functor; it is the parameter
  \<open>cmp\<close> of the operations. \<open>T deleted;\<close> and \<open>T value;\<close> are default-initialised
  objects of the element type: the parameter \<open>dflt\<close> is the value they hold.
\<close>

record 'a AVLTree =
  root :: "'a node"
  element_count :: size_t

definition AVLTree_new :: "'a AVLTree" where
  "AVLTree_new = \<lparr>root = Null, element_count = 0\<rparr>"

definition insert_avl :: "('a \<Rightarrow> 'a \<Rightarrow> bool) \<Rightarrow> 'a \<Rightarrow> 'a AVLTree \<Rightarrow> (size_t \<times> 'a AVLTree) option" where
  "insert_avl cmp new_element t =
     (let pos = 0;
          t = t\<lparr>element_count := element_count t + 1\<rparr>
      in do {
        (r, pos) \<leftarrow> insert_rec cmp (root t) new_element pos;
        Some (pos, t\<lparr>root := r\<rparr>)
      })"

definition remove_avl :: "('a \<Rightarrow> 'a \<Rightarrow> bool) \<Rightarrow> 'a \<Rightarrow> 'a \<Rightarrow> 'a AVLTree \<Rightarrow> ('a \<times> 'a AVLTree) option" where
  "remove_avl cmp dflt key t =
     (let was_deleted = False;
          deleted = dflt
      in do {
        (r, deleted, was_deleted) \<leftarrow> remove_rec cmp (root t) key deleted was_deleted;
        let t = t\<lparr>root := r\<rparr>;
        let t = (if was_deleted then t\<lparr>element_count := element_count t - 1\<rparr> else t);
        Some (deleted, t)
      })"

definition get_Kth :: "'a \<Rightarrow> size_t \<Rightarrow> 'a AVLTree \<Rightarrow> 'a option" where
  "get_Kth dflt pos t =
     (if pos < element_count t then Some (get_Kth_rec (root t) pos 0 dflt) else None)"

subsection \<open>Sequences of operations\<close>

datatype 'a op = Insert 'a | Remove 'a

fun apply_op :: "('a \<Rightarrow> 'a \<Rightarrow> bool) \<Rightarrow> 'a \<Rightarrow> 'a op \<Rightarrow> 'a AVLTree \<Rightarrow> 'a AVLTree option" where
  "apply_op cmp dflt (Insert x) t = map_option snd (insert_avl cmp x t)"
| "apply_op cmp dflt (Remove k) t = map_option snd (remove_avl cmp dflt k t)"

fun exec :: "('a \<Rightarrow> 'a \<Rightarrow> bool) \<Rightarrow> 'a \<Rightarrow> 'a op list \<Rightarrow> 'a AVLTree \<Rightarrow> 'a AVLTree option" where
  "exec cmp dflt [] t = Some t"
| "exec cmp dflt (x # xs) t = (case apply_op cmp dflt x t of None \<Rightarrow> None | Some t' \<Rightarrow> exec cmp dflt xs t')"

section \<open>What the tree stands for\<close>

text \<open>The in-order sequence of the stored elements, the height and the number of nodes of
  a subtree, read off the structure only (never off the fields \<open>depth\<close> and
  \<open>elements_subtree\<close>).\<close>

fun inorder :: "'a node \<Rightarrow> 'a list" where
  "inorder Null = []"
| "inorder (Ptr (Node d e h l r)) = inorder l @ d # inorder r"

fun height :: "'a node \<Rightarrow> nat" where
  "height Null = 0"
| "height (Ptr (Node d e h l r)) = Suc (max (height l) (height r))"

fun count_nodes :: "'a node \<Rightarrow> nat" where
  "count_nodes Null = 0"
| "count_nodes (Ptr (Node d e h l r)) = Suc (count_nodes l + count_nodes r)"

text \<open>The balance invariant: at every node the heights of the two subtrees differ by at
  most one.\<close>

fun avl :: "'a node \<Rightarrow> bool" where
  "avl Null = True"
| "avl (Ptr (Node d e h l r)) =
     (height l \<le> height r + 1 \<and> height r \<le> height l + 1 \<and> avl l \<and> avl r)"

text \<open>The field \<open>depth\<close> of every node is the height of its subtree.\<close>

fun depth_ok :: "'a node \<Rightarrow> bool" where
  "depth_ok Null = True"
| "depth_ok (Ptr (Node d e h l r)) =
     (unat h = height (Ptr (Node d e h l r)) \<and> depth_ok l \<and> depth_ok r)"

text \<open>The field \<open>elements_subtree\<close> of every node is the number of nodes of its subtree
  minus one, and it is the sum of what \<open>in_left_subtree\<close> and \<open>in_right_subtree\<close>
  return.\<close>

fun size_ok :: "'a node \<Rightarrow> bool" where
  "size_ok Null = True"
| "size_ok (Ptr (Node d e h l r)) =
     (unat e = count_nodes (Ptr (Node d e h l r)) - 1 \<and>
      e = in_left_subtree (Node d e h l r) + in_right_subtree (Node d e h l r) \<and>
      size_ok l \<and> size_ok r)"

text \<open>The order invariant as the specification words it: the keys of the left subtree are
  strictly less than the key of the node, the keys of the right subtree are not less.\<close>

fun bst :: "('a \<Rightarrow> 'a \<Rightarrow> bool) \<Rightarrow> 'a node \<Rightarrow> bool" where
  "bst cmp Null = True"
| "bst cmp (Ptr (Node d e h l r)) =
     (list_all (\<lambda>x. cmp x d) (inorder l) \<and> list_all (\<lambda>y. \<not> cmp y d) (inorder r) \<and>
      bst cmp l \<and> bst cmp r)"

text \<open>The order invariant with equal keys allowed on both sides: no key of the left subtree
  is greater than the key of the node, no key of the right subtree is less.\<close>

fun bst_weak :: "('a \<Rightarrow> 'a \<Rightarrow> bool) \<Rightarrow> 'a node \<Rightarrow> bool" where
  "bst_weak cmp Null = True"
| "bst_weak cmp (Ptr (Node d e h l r)) =
     (list_all (\<lambda>x. \<not> cmp d x) (inorder l) \<and> list_all (\<lambda>y. \<not> cmp y d) (inorder r) \<and>
      bst_weak cmp l \<and> bst_weak cmp r)"

text \<open>A comparison functor is a strict weak ordering: irreflexive, transitive, and
  \<open>not less\<close> is transitive as well.\<close>

definition strict_weak :: "('a \<Rightarrow> 'a \<Rightarrow> bool) \<Rightarrow> bool" where
  "strict_weak cmp \<longleftrightarrow>
     (\<forall>x. \<not> cmp x x) \<and>
     (\<forall>x y z. cmp x y \<longrightarrow> cmp y z \<longrightarrow> cmp x z) \<and>
     (\<forall>x y z. \<not> cmp x y \<longrightarrow> \<not> cmp y z \<longrightarrow> \<not> cmp x z)"

text \<open>Two elements are equivalent when neither is less than the other.\<close>

definition equiv_under :: "('a \<Rightarrow> 'a \<Rightarrow> bool) \<Rightarrow> 'a \<Rightarrow> 'a \<Rightarrow> bool" where
  "equiv_under cmp a b \<longleftrightarrow> \<not> cmp a b \<and> \<not> cmp b a"

text \<open>Stable insertion into a sorted list: the new element goes behind every element that
  is not greater. Sorting a sequence this way keeps equal keys in the order of arrival.\<close>

fun stable_insert :: "('a \<Rightarrow> 'a \<Rightarrow> bool) \<Rightarrow> 'a \<Rightarrow> 'a list \<Rightarrow> 'a list" where
  "stable_insert cmp x [] = [x]"
| "stable_insert cmp x (y # ys) = (if cmp x y then x # y # ys else y # stable_insert cmp x ys)"

definition stable_sort :: "('a \<Rightarrow> 'a \<Rightarrow> bool) \<Rightarrow> 'a list \<Rightarrow> 'a list" where
  "stable_sort cmp xs = foldl (\<lambda>acc x. stable_insert cmp x acc) [] xs"

subsection \<open>The textbook view of the operations\<close>

text \<open>A node whose two fields are what the structure below it says.\<close>

definition mk :: "'a \<Rightarrow> 'a node \<Rightarrow> 'a node \<Rightarrow> 'a node" where
  "mk d l r = Ptr (Node d (of_nat (count_nodes l + count_nodes r))
                         (of_nat (Suc (max (height l) (height r)))) l r)"

fun canon :: "'a node \<Rightarrow> bool" where
  "canon Null = True"
| "canon (Ptr (Node d e h l r)) =
     (e = of_nat (count_nodes l + count_nodes r) \<and>
      h = of_nat (Suc (max (height l) (height r))) \<and> canon l \<and> canon r)"

text \<open>Rebalancing in terms of heights: a single or double rotation where the heights of
  the subtrees differ by exactly two, the plain node otherwise.\<close>

definition bal :: "'a \<Rightarrow> 'a node \<Rightarrow> 'a node \<Rightarrow> 'a node" where
  "bal d l r =
     (if height r = height l + 2 then
        (case r of
           Null \<Rightarrow> mk d l r
         | Ptr (Node rd re rh rl rr) \<Rightarrow>
             if height rr < height rl then
               (case rl of
                  Null \<Rightarrow> mk d l r
                | Ptr (Node rld rle rlh rll rlr) \<Rightarrow> mk rld (mk d l rll) (mk rd rlr rr))
             else mk rd (mk d l rl) rr)
      else if height l = height r + 2 then
        (case l of
           Null \<Rightarrow> mk d l r
         | Ptr (Node ld le lh ll lr) \<Rightarrow>
             if height ll < height lr then
               (case lr of
                  Null \<Rightarrow> mk d l r
                | Ptr (Node lrd lre lrh lrl lrr) \<Rightarrow> mk lrd (mk ld ll lrl) (mk d lrr r))
             else mk ld ll (mk d lr r))
      else mk d l r)"

text \<open>\<open>(p ? p->elements_subtree + 1 : 0)\<close>, the body of \<open>in_left_subtree\<close> and
  \<open>in_right_subtree\<close> for the child \<open>p\<close>.\<close>

definition elems_or_0 :: "'a node \<Rightarrow> size_t" where
  "elems_or_0 p = (case p of Null \<Rightarrow> 0 | Ptr n \<Rightarrow> elements_subtree n + 1)"

text \<open>Insertion: the tree it builds and the number of elements it passes on the way
  down.\<close>

fun ins :: "('a \<Rightarrow> 'a \<Rightarrow> bool) \<Rightarrow> 'a \<Rightarrow> 'a node \<Rightarrow> 'a node" where
  "ins cmp x Null = mk x Null Null"
| "ins cmp x (Ptr (Node d e h l r)) =
     (if cmp x d then bal d (ins cmp x l) r else bal d l (ins cmp x r))"

fun rank_of :: "('a \<Rightarrow> 'a \<Rightarrow> bool) \<Rightarrow> 'a \<Rightarrow> 'a node \<Rightarrow> nat" where
  "rank_of cmp x Null = 0"
| "rank_of cmp x (Ptr (Node d e h l r)) =
     (if cmp x d then rank_of cmp x l else count_nodes l + 1 + rank_of cmp x r)"

text \<open>Removal of the leftmost and of the rightmost node of a subtree.\<close>

fun del_min :: "'a node \<Rightarrow> 'a node" where
  "del_min Null = Null"
| "del_min (Ptr (Node d e h l r)) = (if l = Null then r else bal d (del_min l) r)"

fun del_max :: "'a node \<Rightarrow> 'a node" where
  "del_max Null = Null"
| "del_max (Ptr (Node d e h l r)) = (if r = Null then l else bal d l (del_max r))"

text \<open>The first node on the way down from the root whose key is equivalent to the searched
  one, and the tree without it.\<close>

fun found :: "('a \<Rightarrow> 'a \<Rightarrow> bool) \<Rightarrow> 'a \<Rightarrow> 'a node \<Rightarrow> 'a option" where
  "found cmp key Null = None"
| "found cmp key (Ptr (Node d e h l r)) =
     (if cmp d key then found cmp key r
      else if cmp key d then found cmp key l
      else Some d)"

text \<open>The position, in the in-order sequence, of that first node on the way down.\<close>

fun found_index :: "('a \<Rightarrow> 'a \<Rightarrow> bool) \<Rightarrow> 'a \<Rightarrow> 'a node \<Rightarrow> nat option" where
  "found_index cmp key Null = None"
| "found_index cmp key (Ptr (Node d e h l r)) =
     (if cmp d key then map_option (\<lambda>i. count_nodes l + 1 + i) (found_index cmp key r)
      else if cmp key d then found_index cmp key l
      else Some (count_nodes l))"

fun del :: "('a \<Rightarrow> 'a \<Rightarrow> bool) \<Rightarrow> 'a \<Rightarrow> 'a node \<Rightarrow> 'a node" where
  "del cmp key Null = Null"
| "del cmp key (Ptr (Node d e h l r)) =
     (if cmp d key then bal d l (del cmp key r)
      else if cmp key d then bal d (del cmp key l) r
      else if height r = 0 \<and> height l = 0 then Null
      else if height l \<le> height r then bal (hd (inorder r)) l (del_min r)
      else bal (last (inorder l)) (del_max l) r)"

text \<open>A list in non-decreasing order, and a list with one occurrence of an element taken
  out.\<close>

definition sorted_le :: "('a \<Rightarrow> 'a \<Rightarrow> bool) \<Rightarrow> 'a list \<Rightarrow> bool" where
  "sorted_le cmp xs = sorted_wrt (\<lambda>a b. \<not> cmp b a) xs"

fun excise :: "'a list \<Rightarrow> 'a \<Rightarrow> 'a list \<Rightarrow> bool" where
  "excise [] v ys = False"
| "excise (x # xs) v ys =
     ((x = v \<and> ys = xs) \<or> (case ys of [] \<Rightarrow> False | y # ys' \<Rightarrow> x = y \<and> excise xs v ys'))"

text \<open>The number of insertions in a sequence of operations.\<close>

fun n_inserts :: "'a op list \<Rightarrow> nat" where
  "n_inserts [] = 0"
| "n_inserts (Insert x # ops) = Suc (n_inserts ops)"
| "n_inserts (Remove k # ops) = n_inserts ops"

text \<open>What holds of the container between two operations: the fields of every node are
  right, the tree is balanced, and the element count is at least the number of nodes.\<close>

definition invar :: "'a AVLTree \<Rightarrow> bool" where
  "invar t \<longleftrightarrow>
     canon (root t) \<and> avl (root t) \<and> count_nodes (root t) \<le> unat (element_count t)"

definition ordered :: "('a \<Rightarrow> 'a \<Rightarrow> bool) \<Rightarrow> 'a AVLTree \<Rightarrow> bool" where
  "ordered cmp t \<longleftrightarrow> sorted_le cmp (inorder (root t))"

section \<open>Proofs\<close>

subsection \<open>Induction and case analysis over pointers\<close>

lemma node_induct [case_names Null Node]:
  "P Null \<Longrightarrow> (\<And>d e h l r. P l \<Longrightarrow> P r \<Longrightarrow> P (Ptr (Node d e h l r))) \<Longrightarrow> P t"
  by (induction t rule: inorder.induct) auto

lemma node_cases [case_names Null Node]:
  "(t = Null \<Longrightarrow> P) \<Longrightarrow> (\<And>d e h l r. t = Ptr (Node d e h l r) \<Longrightarrow> P) \<Longrightarrow> P"
  by (cases t rule: inorder.cases) auto

subsection \<open>Words that hold small numbers\<close>

lemma unat8: "n < 256 \<Longrightarrow> unat (of_nat n :: uchar) = n"
  by (simp add: unat_of_nat)

lemma uint8: "n < 256 \<Longrightarrow> uint (of_nat n :: uchar) = int n"
  by (simp add: uint_nat unat_of_nat)

lemma less8: "m < 256 \<Longrightarrow> n < 256 \<Longrightarrow> (of_nat m :: uchar) < of_nat n \<longleftrightarrow> m < n"
  by (simp add: word_less_nat_alt unat_of_nat)

lemma le8: "m < 256 \<Longrightarrow> n < 256 \<Longrightarrow> (of_nat m :: uchar) \<le> of_nat n \<longleftrightarrow> m \<le> n"
  by (simp add: word_le_nat_alt unat_of_nat)

lemma zero8: "n < 256 \<Longrightarrow> (of_nat n :: uchar) = 0 \<longleftrightarrow> n = 0"
  using unat8[of n] by (auto simp del: of_nat_eq_0_iff)

subsection \<open>The member functions on nodes with correct fields\<close>

lemma depth_or_0_Ptr: "depth_or_0 (Ptr (Node d e h l r)) = h"
  by (simp add: depth_or_0_def)

lemma elems_or_0_Ptr: "elems_or_0 (Ptr (Node d e h l r)) = e + 1"
  by (simp add: elems_or_0_def)

lemma depth_or_0_canon: "canon t \<Longrightarrow> depth_or_0 t = of_nat (height t)"
  by (cases t rule: node_cases) (simp_all add: depth_or_0_def)

lemma elems_or_0_canon: "canon t \<Longrightarrow> elems_or_0 t = of_nat (count_nodes t)"
  by (cases t rule: node_cases) (simp_all add: elems_or_0_def)

lemma in_left_canon: "canon l \<Longrightarrow> in_left_subtree (Node d e h l r) = of_nat (count_nodes l)"
  by (cases l rule: node_cases) (simp_all add: in_left_subtree_def)

lemma canon_mk [simp]: "canon (mk d l r) \<longleftrightarrow> canon l \<and> canon r"
  by (simp add: mk_def)

lemma canon_eq_mk: "canon (Ptr (Node d e h l r)) \<Longrightarrow> Ptr (Node d e h l r) = mk d l r"
  by (simp add: mk_def)

lemma update_depth_eq:
  assumes "depth_or_0 l = of_nat (height l)" "depth_or_0 r = of_nat (height r)"
    "height l < 256" "height r < 256"
  shows "update_depth (Node d e h l r) = Node d e (of_nat (Suc (max (height l) (height r)))) l r"
  using assms
  by (simp add: update_depth_def set_depth_def less8 max_def Let_def)

lemma update_elements_eq:
  assumes "elems_or_0 l = of_nat (count_nodes l)" "elems_or_0 r = of_nat (count_nodes r)"
  shows "update_elements_subtree (Node d e h l r) =
         Node d (of_nat (count_nodes l + count_nodes r)) h l r"
  using assms
  by (simp add: update_elements_subtree_def set_elements_subtree_def in_left_subtree_def
      in_right_subtree_def elems_or_0_def)

lemma balance_canon:
  assumes "canon l" "canon r" "height l < 256" "height r < 256"
  shows "balance (Node d e h l r) = int (height r) - int (height l)"
  using assms
  by (simp add: balance_def depth_or_0_canon uint8)

lemma rotate_left_canon:
  assumes "canon l" "canon rl" "canon rr" "height l < 255" "height rl < 255" "height rr < 256"
  shows "rotate_left (Ptr (Node d e h l (Ptr (Node rd re rh rl rr)))) = Some (mk rd (mk d l rl) rr)"
proof -
  let ?h1 = "of_nat (Suc (max (height l) (height rl))) :: uchar"
  let ?e1 = "of_nat (count_nodes l + count_nodes rl) :: size_t"
  have 1: "update_depth (Node d e h l rl) = Node d e ?h1 l rl"
    using assms by (intro update_depth_eq) (simp_all add: depth_or_0_canon)
  have 2: "update_depth (Node rd re rh (Ptr (Node d e ?h1 l rl)) rr)
      = Node rd re (of_nat (Suc (max (height (Ptr (Node d e ?h1 l rl))) (height rr))))
          (Ptr (Node d e ?h1 l rl)) rr"
    using assms by (intro update_depth_eq) (simp_all add: depth_or_0_canon depth_or_0_Ptr)
  have 3: "update_elements_subtree (Node d e ?h1 l rl) = Node d ?e1 ?h1 l rl"
    using assms by (intro update_elements_eq) (simp_all add: elems_or_0_canon)
  have 4: "update_elements_subtree (Node rd re rh' (Ptr (Node d ?e1 ?h1 l rl)) rr)
      = Node rd (of_nat (count_nodes (Ptr (Node d ?e1 ?h1 l rl)) + count_nodes rr)) rh'
          (Ptr (Node d ?e1 ?h1 l rl)) rr" for rh'
    using assms by (intro update_elements_eq) (simp_all add: elems_or_0_canon elems_or_0_Ptr)
  show ?thesis
    by (simp add: rotate_left_def set_right_def set_left_def Let_def 1 2 3 4 mk_def
        del: of_nat_Suc of_nat_add)
qed

lemma rotate_right_canon:
  assumes "canon ll" "canon lr" "canon r" "height ll < 256" "height lr < 255" "height r < 255"
  shows "rotate_right (Ptr (Node d e h (Ptr (Node ld le lh ll lr)) r)) = Some (mk ld ll (mk d lr r))"
proof -
  let ?h1 = "of_nat (Suc (max (height lr) (height r))) :: uchar"
  let ?e1 = "of_nat (count_nodes lr + count_nodes r) :: size_t"
  have 1: "update_depth (Node d e h lr r) = Node d e ?h1 lr r"
    using assms by (intro update_depth_eq) (simp_all add: depth_or_0_canon)
  have 2: "update_depth (Node ld le lh ll (Ptr (Node d e ?h1 lr r)))
      = Node ld le (of_nat (Suc (max (height ll) (height (Ptr (Node d e ?h1 lr r)))))) ll
          (Ptr (Node d e ?h1 lr r))"
    using assms by (intro update_depth_eq) (simp_all add: depth_or_0_canon depth_or_0_Ptr)
  have 3: "update_elements_subtree (Node d e ?h1 lr r) = Node d ?e1 ?h1 lr r"
    using assms by (intro update_elements_eq) (simp_all add: elems_or_0_canon)
  have 4: "update_elements_subtree (Node ld le lh' ll (Ptr (Node d ?e1 ?h1 lr r)))
      = Node ld (of_nat (count_nodes ll + count_nodes (Ptr (Node d ?e1 ?h1 lr r)))) lh' ll
          (Ptr (Node d ?e1 ?h1 lr r))" for lh'
    using assms by (intro update_elements_eq) (simp_all add: elems_or_0_canon elems_or_0_Ptr)
  show ?thesis
    by (simp add: rotate_right_def set_right_def set_left_def Let_def 1 2 3 4 mk_def
        del: of_nat_Suc of_nat_add)
qed

subsection \<open>Rebalancing is the textbook rebalancing\<close>

lemma height_mk [simp]: "height (mk d l r) = Suc (max (height l) (height r))"
  by (simp add: mk_def)

lemma count_mk [simp]: "count_nodes (mk d l r) = Suc (count_nodes l + count_nodes r)"
  by (simp add: mk_def)

lemma inorder_mk [simp]: "inorder (mk d l r) = inorder l @ d # inorder r"
  by (simp add: mk_def)

lemma avl_mk [simp]: "avl (mk d l r) \<longleftrightarrow> height l \<le> height r + 1 \<and> height r \<le> height l + 1 \<and> avl l \<and> avl r"
  by (simp add: mk_def)

lemma height_0_iff [simp]: "height t = 0 \<longleftrightarrow> t = Null"
  by (cases t rule: node_cases) simp_all

lemma update_depth_canon:
  assumes "canon l" "canon r" "height l < 256" "height r < 256"
  shows "update_depth (Node d e h l r) = Node d e (of_nat (Suc (max (height l) (height r)))) l r"
  using assms by (intro update_depth_eq) (simp_all add: depth_or_0_canon)

lemma update_elements_canon:
  assumes "canon l" "canon r"
  shows "Ptr (update_elements_subtree (Node d e (of_nat (Suc (max (height l) (height r)))) l r)) = mk d l r"
  using assms by (simp add: update_elements_eq elems_or_0_canon mk_def del: of_nat_Suc of_nat_add)

lemma rotate_left_mk:
  assumes "canon l" "canon rl" "canon rr" "height l < 255" "height rl < 255" "height rr < 256"
  shows "rotate_left (Ptr (Node d e h l (mk rd rl rr))) = Some (mk rd (mk d l rl) rr)"
  unfolding mk_def[of rd rl rr] using assms by (rule rotate_left_canon)

lemma rotate_right_mk:
  assumes "canon ll" "canon lr" "canon r" "height ll < 256" "height lr < 255" "height r < 255"
  shows "rotate_right (Ptr (Node d e h (mk ld ll lr) r)) = Some (mk ld ll (mk d lr r))"
  unfolding mk_def[of ld ll lr] using assms by (rule rotate_right_canon)

lemma balance_node_canon:
  assumes "canon l" "canon r" "height l < 253" "height r < 253"
  shows "balance_node (Ptr (Node d e h l r)) = Some (bal d l r)"
proof -
  consider (R) "height r = height l + 2" | (L) "height l = height r + 2"
    | (N) "height r \<noteq> height l + 2" "height l \<noteq> height r + 2" by blast
  then show ?thesis
  proof cases
    case N
    then have "int (height r) - int (height l) \<noteq> 2" "int (height r) - int (height l) \<noteq> - 2" by linarith+
    then show ?thesis using N assms
      by (simp add: balance_node_def update_depth_canon balance_canon update_elements_canon Let_def bal_def del: of_nat_Suc of_nat_add)
  next
    case R
    then obtain rd re rh rl rr where r: "r = Ptr (Node rd re rh rl rr)"
      by (cases r rule: node_cases) auto
    have r': "r = mk rd rl rr" using assms r by (simp add: mk_def)
    have cr: "canon rl" "canon rr" and hr: "height rl < 252" "height rr < 252"
      using assms r by auto
    have b: "balance (update_depth (Node d e h l r)) = 2"
      using assms R by (simp add: update_depth_canon balance_canon del: of_nat_Suc of_nat_add)
    have rn: "right (update_depth (Node d e h l r)) = Ptr (Node rd re rh rl rr)"
      using assms r by (simp add: update_depth_def Let_def set_depth_def)
    have br: "balance (Node rd re rh rl rr) = int (height rr) - int (height rl)"
      using cr hr by (intro balance_canon) simp_all
    have ud: "update_depth (Node d e h l r) = Node d e (of_nat (Suc (max (height l) (height r)))) l r"
      using assms by (simp add: update_depth_canon)
    show ?thesis
    proof (cases "height rr < height rl")
      case False
      have "rotate_left (Ptr (Node d e h' l r)) = Some (mk rd (mk d l rl) rr)" for h'
        unfolding r' using assms cr hr by (intro rotate_left_mk) simp_all
      then show ?thesis using R False
        by (simp add: balance_node_def b rn br Let_def, simp only: ud, simp add: bal_def r del: of_nat_Suc of_nat_add)
    next
      case True
      then obtain rld rle rlh rll rlr where rl: "rl = Ptr (Node rld rle rlh rll rlr)"
        by (cases rl rule: node_cases) auto
      have rl': "rl = mk rld rll rlr" using cr rl by (simp add: mk_def)
      have crl: "canon rll" "canon rlr" and hrl: "height rll < 251" "height rlr < 251"
        using cr hr rl by auto
      have 1: "rotate_right (Ptr (Node rd re rh rl rr)) = Some (mk rld rll (mk rd rlr rr))"
        unfolding rl' using crl hrl cr hr by (intro rotate_right_mk) simp_all
      have 2: "rotate_left (Ptr (Node d e h' l (mk rld rll (mk rd rlr rr)))) = Some (mk rld (mk d l rll) (mk rd rlr rr))" for h'
        using assms crl hrl cr hr by (intro rotate_left_mk) simp_all
      show ?thesis using R True
        by (simp add: balance_node_def b rn br Let_def 1, simp only: ud, simp add: set_right_def 2 bal_def r rl del: of_nat_Suc of_nat_add)
    qed
  next
    case L
    then obtain ld le lh ll lr where l: "l = Ptr (Node ld le lh ll lr)"
      by (cases l rule: node_cases) auto
    have l': "l = mk ld ll lr" using assms l by (simp add: mk_def)
    have cl: "canon ll" "canon lr" and hl: "height ll < 252" "height lr < 252"
      using assms l by auto
    have b: "balance (update_depth (Node d e h l r)) = - 2"
      using assms L by (simp add: update_depth_canon balance_canon del: of_nat_Suc of_nat_add)
    have ln: "left (update_depth (Node d e h l r)) = Ptr (Node ld le lh ll lr)"
      using assms l by (simp add: update_depth_def Let_def set_depth_def)
    have bl: "balance (Node ld le lh ll lr) = int (height lr) - int (height ll)"
      using cl hl by (intro balance_canon) simp_all
    have ud: "update_depth (Node d e h l r) = Node d e (of_nat (Suc (max (height l) (height r)))) l r"
      using assms by (simp add: update_depth_canon)
    show ?thesis
    proof (cases "height ll < height lr")
      case False
      have "rotate_right (Ptr (Node d e h' l r)) = Some (mk ld ll (mk d lr r))" for h'
        unfolding l' using assms cl hl by (intro rotate_right_mk) simp_all
      then show ?thesis using L False
        by (simp add: balance_node_def b ln bl Let_def, simp only: ud, simp add: bal_def l del: of_nat_Suc of_nat_add)
    next
      case True
      then obtain lrd lre lrh lrl lrr where lr: "lr = Ptr (Node lrd lre lrh lrl lrr)"
        by (cases lr rule: node_cases) auto
      have lr': "lr = mk lrd lrl lrr" using cl lr by (simp add: mk_def)
      have clr: "canon lrl" "canon lrr" and hlr: "height lrl < 251" "height lrr < 251"
        using cl hl lr by auto
      have 1: "rotate_left (Ptr (Node ld le lh ll lr)) = Some (mk lrd (mk ld ll lrl) lrr)"
        unfolding lr' using clr hlr cl hl by (intro rotate_left_mk) simp_all
      have 2: "rotate_right (Ptr (Node d e h' (mk lrd (mk ld ll lrl) lrr) r)) = Some (mk lrd (mk ld ll lrl) (mk d lrr r))" for h'
        using assms clr hlr cl hl by (intro rotate_right_mk) simp_all
      show ?thesis using L True
        by (simp add: balance_node_def b ln bl Let_def 1, simp only: ud, simp add: set_left_def 2 bal_def l lr del: of_nat_Suc of_nat_add)
    qed
  qed
qed

subsection \<open>Properties of rebalancing\<close>

lemma bal_cases [case_names N R1 R2 L1 L2]:
  obtains
    (N) "height r \<noteq> height l + 2" "height l \<noteq> height r + 2" "bal d l r = mk d l r"
  | (R1) rd re rh rl rr where "height r = height l + 2" "r = Ptr (Node rd re rh rl rr)"
      "height rl \<le> height rr" "bal d l r = mk rd (mk d l rl) rr"
  | (R2) rd re rh rr rld rle rlh rll rlr where "height r = height l + 2"
      "r = Ptr (Node rd re rh (Ptr (Node rld rle rlh rll rlr)) rr)"
      "height rr < Suc (max (height rll) (height rlr))"
      "bal d l r = mk rld (mk d l rll) (mk rd rlr rr)"
  | (L1) ld le lh ll lr where "height l = height r + 2" "l = Ptr (Node ld le lh ll lr)"
      "height lr \<le> height ll" "bal d l r = mk ld ll (mk d lr r)"
  | (L2) ld le lh ll lrd lre lrh lrl lrr where "height l = height r + 2"
      "l = Ptr (Node ld le lh ll (Ptr (Node lrd lre lrh lrl lrr)))"
      "height ll < Suc (max (height lrl) (height lrr))"
      "bal d l r = mk lrd (mk ld ll lrl) (mk d lrr r)"
proof -
  consider (R) "height r = height l + 2" | (L) "height l = height r + 2"
    | (N') "height r \<noteq> height l + 2" "height l \<noteq> height r + 2" by blast
  then show thesis
  proof cases
    case N'
    then show thesis by (intro N) (simp_all add: bal_def)
  next
    case R
    then obtain rd re rh rl rr where r: "r = Ptr (Node rd re rh rl rr)"
      by (cases r rule: node_cases) auto
    show thesis
    proof (cases "height rr < height rl")
      case False
      then show thesis using R r by (intro R1[of rd re rh rl rr]) (simp_all add: bal_def)
    next
      case True
      then obtain rld rle rlh rll rlr where rl: "rl = Ptr (Node rld rle rlh rll rlr)"
        by (cases rl rule: node_cases) auto
      have "bal d l r = mk rld (mk d l rll) (mk rd rlr rr)"
        using R True unfolding bal_def r rl by simp
      then show thesis using R r rl True by (intro R2[of rd re rh rld rle rlh rll rlr rr]) simp_all
    qed
  next
    case L
    then obtain ld le lh ll lr where l: "l = Ptr (Node ld le lh ll lr)"
      by (cases l rule: node_cases) auto
    show thesis
    proof (cases "height ll < height lr")
      case False
      then show thesis using L l by (intro L1[of ld le lh ll lr]) (simp_all add: bal_def)
    next
      case True
      then obtain lrd lre lrh lrl lrr where lr: "lr = Ptr (Node lrd lre lrh lrl lrr)"
        by (cases lr rule: node_cases) auto
      have "bal d l r = mk lrd (mk ld ll lrl) (mk d lrr r)"
        using L True unfolding bal_def l lr by simp
      then show thesis using L l lr True by (intro L2[of ld le lh ll lrd lre lrh lrl lrr]) simp_all
    qed
  qed
qed

lemma inorder_bal [simp]: "inorder (bal d l r) = inorder l @ d # inorder r"
  by (cases rule: bal_cases[of r l d]) simp_all

lemma count_bal [simp]: "count_nodes (bal d l r) = Suc (count_nodes l + count_nodes r)"
  by (cases rule: bal_cases[of r l d]) simp_all

lemma canon_bal: "canon l \<Longrightarrow> canon r \<Longrightarrow> canon (bal d l r)"
  by (cases rule: bal_cases[of r l d]) simp_all

lemma bal_not_Null [simp]: "bal d l r \<noteq> Null"
  by (cases rule: bal_cases[of r l d]) (simp_all add: mk_def)

lemma height_bal_le: "height (bal d l r) \<le> Suc (max (height l) (height r))"
  by (cases rule: bal_cases[of r l d]) auto

lemma bal_balanced:
  "height l \<le> height r + 1 \<Longrightarrow> height r \<le> height l + 1 \<Longrightarrow> bal d l r = mk d l r"
  by (simp add: bal_def)

lemma avl_bal:
  "avl l \<Longrightarrow> avl r \<Longrightarrow> height l \<le> height r + 2 \<Longrightarrow> height r \<le> height l + 2 \<Longrightarrow> avl (bal d l r)"
  by (cases rule: bal_cases[of r l d]) auto

lemma height_bal_R:
  "avl r \<Longrightarrow> height r = height l + 2 \<Longrightarrow> height (bal d l r) = height r \<or> height (bal d l r) = Suc (height r)"
  by (cases rule: bal_cases[of r l d]) auto

lemma height_bal_L:
  "avl l \<Longrightarrow> height l = height r + 2 \<Longrightarrow> height (bal d l r) = height l \<or> height (bal d l r) = Suc (height l)"
  by (cases rule: bal_cases[of r l d]) auto

lemma height_bal_N:
  "height r \<noteq> height l + 2 \<Longrightarrow> height l \<noteq> height r + 2 \<Longrightarrow> height (bal d l r) = Suc (max (height l) (height r))"
  by (simp add: bal_def)

subsection \<open>Insertion\<close>

lemma length_inorder [simp]: "length (inorder t) = count_nodes t"
  by (induction t rule: node_induct) simp_all

lemma count_ins [simp]: "count_nodes (ins cmp x t) = Suc (count_nodes t)"
  by (induction t rule: node_induct) simp_all

lemma canon_ins: "canon t \<Longrightarrow> canon (ins cmp x t)"
  by (induction t rule: node_induct) (simp_all add: canon_bal)

lemma height_ins_le: "height (ins cmp x t) \<le> Suc (height t)"
proof (induction t rule: node_induct)
  case Null
  then show ?case by simp
next
  case (Node d e h l r)
  show ?case
  proof (cases "cmp x d")
    case True
    then show ?thesis using Node.IH(1) height_bal_le[of d "ins cmp x l" r] by simp
  next
    case False
    then show ?thesis using Node.IH(2) height_bal_le[of d l "ins cmp x r"] by simp
  qed
qed

lemma rank_of_le: "rank_of cmp x t \<le> count_nodes t"
  by (induction t rule: node_induct) auto

lemma inorder_ins:
  "inorder (ins cmp x t) = take (rank_of cmp x t) (inorder t) @ x # drop (rank_of cmp x t) (inorder t)"
proof (induction t rule: node_induct)
  case Null
  then show ?case by simp
next
  case (Node d e h l r)
  show ?case
  proof (cases "cmp x d")
    case True
    then show ?thesis using Node.IH(1) rank_of_le[of cmp x l] by simp
  next
    case False
    then show ?thesis using Node.IH(2) by simp
  qed
qed

lemma insert_rec_canon:
  "canon t \<Longrightarrow> height t < 252 \<Longrightarrow>
   insert_rec cmp t x pos = Some (ins cmp x t, pos + of_nat (rank_of cmp x t))"
proof (induction t arbitrary: pos rule: node_induct)
  case Null
  then show ?case by (simp add: mk_def)
next
  case (Node d e h l r)
  have c: "canon l" "canon r" and hh: "height l < 251" "height r < 251"
    using Node.prems by auto
  show ?case
  proof (cases "cmp x d")
    case True
    have 1: "insert_rec cmp l x pos = Some (ins cmp x l, pos + of_nat (rank_of cmp x l))"
      using c hh by (intro Node.IH(1)) simp_all
    have 2: "balance_node (Ptr (Node d (e + 1) h (ins cmp x l) r)) = Some (bal d (ins cmp x l) r)"
      using c hh height_ins_le[of cmp x l] by (intro balance_node_canon) (simp_all add: canon_ins)
    show ?thesis using True by (simp add: 1 2)
  next
    case False
    have 1: "insert_rec cmp r x pos' = Some (ins cmp x r, pos' + of_nat (rank_of cmp x r))" for pos'
      using c hh by (intro Node.IH(2)) simp_all
    have 2: "balance_node (Ptr (Node d (e + 1) h l (ins cmp x r))) = Some (bal d l (ins cmp x r))"
      using c hh height_ins_le[of cmp x r] by (intro balance_node_canon) (simp_all add: canon_ins)
    show ?thesis using False c by (simp add: 1 2 in_left_canon)
  qed
qed

lemma avl_ins:
  "avl t \<Longrightarrow> avl (ins cmp x t) \<and> (height (ins cmp x t) = height t \<or> height (ins cmp x t) = Suc (height t))"
proof (induction t rule: node_induct)
  case Null
  then show ?case by simp
next
  case (Node d e h l r)
  have a: "avl l" "avl r" and b: "height l \<le> height r + 1" "height r \<le> height l + 1"
    using Node.prems by auto
  show ?case
  proof (cases "cmp x d")
    case True
    let ?l = "ins cmp x l"
    have IH: "avl ?l" "height ?l = height l \<or> height ?l = Suc (height l)"
      using Node.IH(1) a by auto
    have A: "avl (bal d ?l r)" using IH a b by (intro avl_bal) auto
    have H: "height (bal d ?l r) = height (Ptr (Node d e h l r)) \<or> height (bal d ?l r) = Suc (height (Ptr (Node d e h l r)))"
    proof (cases "height ?l = height r + 2")
      case True
      then show ?thesis using height_bal_L[of ?l r d] IH b by auto
    next
      case False
      then have "height (bal d ?l r) = Suc (max (height ?l) (height r))"
        using IH b by (intro height_bal_N) auto
      then show ?thesis using IH b by auto
    qed
    show ?thesis using True A H by simp
  next
    case False
    let ?r = "ins cmp x r"
    have IH: "avl ?r" "height ?r = height r \<or> height ?r = Suc (height r)"
      using Node.IH(2) a by auto
    have A: "avl (bal d l ?r)" using IH a b by (intro avl_bal) auto
    have H: "height (bal d l ?r) = height (Ptr (Node d e h l r)) \<or> height (bal d l ?r) = Suc (height (Ptr (Node d e h l r)))"
    proof (cases "height ?r = height l + 2")
      case True
      then show ?thesis using height_bal_R[of ?r l d] IH b by auto
    next
      case False
      then have "height (bal d l ?r) = Suc (max (height l) (height ?r))"
        using IH b by (intro height_bal_N) auto
      then show ?thesis using IH b by auto
    qed
    show ?thesis using False A H by simp
  qed
qed

subsection \<open>Height of a balanced tree, sorted sequences\<close>

lemma avl_height_bound: "avl t \<Longrightarrow> 2 ^ (height t div 2) \<le> Suc (count_nodes t)"
proof (induction t rule: node_induct)
  case Null
  then show ?case by simp
next
  case (Node d e h l r)
  then have IH: "2 ^ (height l div 2) \<le> Suc (count_nodes l)" "2 ^ (height r div 2) \<le> Suc (count_nodes r)"
    and b: "height l \<le> height r + 1" "height r \<le> height l + 1"
    by auto
  let ?m = "max (height l) (height r)"
  have m: "?m div 2 \<le> height l div 2 \<or> ?m div 2 \<le> height r div 2" by (auto simp: max_def)
  show ?case
  proof (cases "even ?m")
    case True
    then have "Suc ?m div 2 = ?m div 2" by simp
    moreover have "(2::nat) ^ (?m div 2) \<le> Suc (count_nodes l) + Suc (count_nodes r)"
    proof -
      from m consider "?m div 2 \<le> height l div 2" | "?m div 2 \<le> height r div 2" by blast
      then show ?thesis
      proof cases
        case 1
        then have "(2::nat) ^ (?m div 2) \<le> 2 ^ (height l div 2)" by (intro power_increasing) simp_all
        then show ?thesis using IH by linarith
      next
        case 2
        then have "(2::nat) ^ (?m div 2) \<le> 2 ^ (height r div 2)" by (intro power_increasing) simp_all
        then show ?thesis using IH by linarith
      qed
    qed
    ultimately show ?thesis by simp
  next
    case False
    then have s: "Suc ?m div 2 = Suc (?m div 2)" by simp
    have "?m div 2 \<le> height l div 2" "?m div 2 \<le> height r div 2"
      using False b by (auto simp: max_def elim!: oddE)
    then have "(2::nat) ^ (?m div 2) \<le> 2 ^ (height l div 2)" "(2::nat) ^ (?m div 2) \<le> 2 ^ (height r div 2)"
      by (auto intro!: power_increasing)
    then have "(2::nat) * 2 ^ (?m div 2) \<le> Suc (count_nodes l) + Suc (count_nodes r)"
      using IH by linarith
    then show ?thesis using s by simp
  qed
qed

lemma avl_height_small:
  assumes "avl t" "count_nodes t < 2 ^ 64"
  shows "height t < 130"
proof (rule ccontr)
  assume "\<not> height t < 130"
  then have "65 \<le> height t div 2" by simp
  then have "(2::nat) ^ 65 \<le> 2 ^ (height t div 2)" by (intro power_increasing) simp_all
  also have "\<dots> \<le> Suc (count_nodes t)" using assms(1) by (rule avl_height_bound)
  finally show False using assms(2) by simp
qed

lemma stable_insert_takeWhile:
  "stable_insert cmp x xs = takeWhile (\<lambda>y. \<not> cmp x y) xs @ x # dropWhile (\<lambda>y. \<not> cmp x y) xs"
  by (induction xs) simp_all

lemma sorted_le_append:
  "sorted_le cmp (xs @ ys) \<longleftrightarrow> sorted_le cmp xs \<and> sorted_le cmp ys \<and> (\<forall>a\<in>set xs. \<forall>b\<in>set ys. \<not> cmp b a)"
  by (simp add: sorted_le_def sorted_wrt_append)

lemma sorted_le_Cons:
  "sorted_le cmp (x # ys) \<longleftrightarrow> sorted_le cmp ys \<and> (\<forall>b\<in>set ys. \<not> cmp b x)"
  by (auto simp add: sorted_le_def)

lemma sorted_le_Nil [simp]: "sorted_le cmp []"
  by (simp add: sorted_le_def)

lemma sw_irrefl: "strict_weak cmp \<Longrightarrow> \<not> cmp x x"
  by (simp add: strict_weak_def)

lemma sw_trans: "strict_weak cmp \<Longrightarrow> cmp x y \<Longrightarrow> cmp y z \<Longrightarrow> cmp x z"
  unfolding strict_weak_def by blast

lemma sw_negtrans: "strict_weak cmp \<Longrightarrow> \<not> cmp x y \<Longrightarrow> \<not> cmp y z \<Longrightarrow> \<not> cmp x z"
  unfolding strict_weak_def by blast

lemma sw_asym: "strict_weak cmp \<Longrightarrow> cmp x y \<Longrightarrow> \<not> cmp y x"
  using sw_irrefl sw_trans by metis

lemma sorted_le_stable_insert:
  assumes "strict_weak cmp"
  shows "sorted_le cmp xs \<Longrightarrow> sorted_le cmp (stable_insert cmp x xs)"
proof (induction xs)
  case Nil
  then show ?case by (simp add: sorted_le_Cons)
next
  case (Cons y ys)
  show ?case
  proof (cases "cmp x y")
    case True
    have "\<not> cmp b x" if "b \<in> set ys" for b
      using Cons.prems that True assms sw_trans[OF assms, of b x y] by (auto simp: sorted_le_Cons)
    then show ?thesis using True Cons.prems sw_asym[OF assms True] by (auto simp: sorted_le_Cons)
  next
    case False
    have "set (stable_insert cmp x ys) = insert x (set ys)"
      by (simp add: stable_insert_takeWhile) (metis Un_insert_right set_append set_simps(2) takeWhile_dropWhile_id set_append)
    then show ?thesis using False Cons by (auto simp: sorted_le_Cons)
  qed
qed

lemma rank_of_sorted:
  assumes "strict_weak cmp"
  shows "sorted_le cmp (inorder t) \<Longrightarrow> rank_of cmp x t = length (takeWhile (\<lambda>y. \<not> cmp x y) (inorder t))"
proof (induction t rule: node_induct)
  case Null
  then show ?case by simp
next
  case (Node d e h l r)
  have s: "sorted_le cmp (inorder l)" "sorted_le cmp (inorder r)" and ld: "\<forall>a\<in>set (inorder l). \<not> cmp d a"
    using Node.prems by (auto simp: sorted_le_append sorted_le_Cons)
  show ?case
  proof (cases "cmp x d")
    case True
    have "length (takeWhile (\<lambda>y. \<not> cmp x y) (inorder l)) = count_nodes l"
      if "\<forall>a\<in>set (inorder l). \<not> cmp x a"
    proof -
      have "takeWhile (\<lambda>y. \<not> cmp x y) (inorder l) = inorder l"
        using that by (simp add: takeWhile_eq_all_conv)
      then have "length (takeWhile (\<lambda>y. \<not> cmp x y) (inorder l)) = length (inorder l)"
        by (rule arg_cong)
      then show ?thesis by simp
    qed
    then show ?thesis using True Node.IH(1)[OF s(1)] by (simp add: takeWhile_append)
  next
    case False
    have "\<forall>a\<in>set (inorder l). \<not> cmp x a" using ld False sw_negtrans[OF assms] by blast
    then show ?thesis using False Node.IH(2)[OF s(2)] by (simp add: takeWhile_append)
  qed
qed

lemma filter_eq_takeWhile_sorted:
  assumes "strict_weak cmp"
  shows "sorted_le cmp xs \<Longrightarrow> filter (\<lambda>y. \<not> cmp x y) xs = takeWhile (\<lambda>y. \<not> cmp x y) xs"
proof (induction xs)
  case Nil
  then show ?case by simp
next
  case (Cons y ys)
  show ?case
  proof (cases "cmp x y")
    case True
    have "cmp x b" if "b \<in> set ys" for b
      using Cons.prems that True sw_negtrans[OF assms, of x b y] by (auto simp: sorted_le_Cons)
    then show ?thesis using True by (simp add: filter_empty_conv)
  next
    case False
    then show ?thesis using Cons by (simp add: sorted_le_Cons)
  qed
qed

lemma inorder_ins_sorted:
  assumes "strict_weak cmp" "sorted_le cmp (inorder t)"
  shows "inorder (ins cmp x t) = stable_insert cmp x (inorder t)"
  using rank_of_sorted[OF assms, of x]
  by (simp add: inorder_ins stable_insert_takeWhile takeWhile_eq_take[symmetric] dropWhile_eq_drop[symmetric])

subsection \<open>Rank lookup\<close>

lemma unat64: "n < 2 ^ 64 \<Longrightarrow> unat (of_nat n :: size_t) = n"
  by (simp add: unat_of_nat)

lemma unat_add64:
  assumes "unat (p :: size_t) + n < 2 ^ 64"
  shows "unat (p + of_nat n) = unat p + n"
proof -
  have "unat (of_nat n :: size_t) = n" using assms by (intro unat64) simp
  then show ?thesis using assms unat_add_lem[of p "of_nat n"] by simp
qed

lemma get_Kth_rec_canon:
  "canon t \<Longrightarrow> unat pos + count_nodes t \<le> 2 ^ 64 \<Longrightarrow> unat pos \<le> unat k \<Longrightarrow>
   unat k < unat pos + count_nodes t \<Longrightarrow>
   get_Kth_rec t k pos val = inorder t ! (unat k - unat pos)"
proof (induction t arbitrary: pos rule: node_induct)
  case Null
  then show ?case by simp
next
  case (Node d e h l r)
  have c: "canon l" "canon r" using Node.prems by auto
  let ?cl = "count_nodes l"
  have il: "in_left_subtree (Node d e h l r) = of_nat ?cl" using c by (simp add: in_left_canon)
  have u: "unat (pos + of_nat ?cl) = unat pos + ?cl"
    using Node.prems by (intro unat_add64) simp
  have eq: "pos + of_nat ?cl = k \<longleftrightarrow> unat pos + ?cl = unat k"
    using u by (metis word_unat_eq_iff)
  have less: "pos + of_nat ?cl < k \<longleftrightarrow> unat pos + ?cl < unat k"
    using u by (simp add: word_less_nat_alt)
  consider (E) "unat pos + ?cl = unat k" | (R) "unat pos + ?cl < unat k" | (L) "unat k < unat pos + ?cl"
    by linarith
  then show ?case
  proof cases
    case E
    then have "unat k - unat pos = ?cl" by simp
    then show ?thesis using E by (simp add: il eq nth_append)
  next
    case R
    have u1: "unat (pos + of_nat ?cl + 1) = unat pos + ?cl + 1"
    proof -
      have "unat (pos + of_nat (Suc ?cl)) = unat pos + Suc ?cl"
        using R unsigned_less[of k, where ?'a=nat] by (intro unat_add64) simp
      then show ?thesis by (simp add: ac_simps)
    qed
    have "get_Kth_rec r k (pos + of_nat ?cl + 1) val = inorder r ! (unat k - unat (pos + of_nat ?cl + 1))"
      using c R Node.prems u1 by (intro Node.IH(2)) simp_all
    moreover have "(inorder l @ d # inorder r) ! (unat k - unat pos) = inorder r ! (unat k - (unat pos + ?cl + 1))"
    proof -
      define i where "i = unat k - (unat pos + ?cl + 1)"
      have i: "unat k - unat pos = Suc (?cl + i)" "unat k - (unat pos + ?cl + 1) = i"
        using R unfolding i_def by linarith+
      show ?thesis unfolding i by (simp add: nth_append)
    qed
    ultimately show ?thesis using R by (simp add: il eq less u1)
  next
    case L
    have "get_Kth_rec l k pos val = inorder l ! (unat k - unat pos)"
      using c L Node.prems by (intro Node.IH(1)) simp_all
    moreover have "(inorder l @ d # inorder r) ! (unat k - unat pos) = inorder l ! (unat k - unat pos)"
    proof -
      have "unat k - unat pos < length (inorder l)" using L Node.prems(3) by simp
      then show ?thesis by (simp only: nth_append if_True)
    qed
    ultimately show ?thesis using L by (simp add: il eq less)
  qed
qed

subsection \<open>Removal of the leftmost node\<close>

lemma count_del_min: "t \<noteq> Null \<Longrightarrow> Suc (count_nodes (del_min t)) = count_nodes t"
  by (induction t rule: node_induct) auto

lemma canon_del_min: "canon t \<Longrightarrow> canon (del_min t)"
  by (induction t rule: node_induct) (auto simp: canon_bal)

lemma height_del_min_le: "height (del_min t) \<le> height t"
proof (induction t rule: node_induct)
  case Null
  then show ?case by simp
next
  case (Node d e h l r)
  then show ?case using height_bal_le[of d "del_min l" r] by auto
qed

lemma inorder_del_min: "t \<noteq> Null \<Longrightarrow> hd (inorder t) # inorder (del_min t) = inorder t"
proof (induction t rule: node_induct)
  case Null
  then show ?case by simp
next
  case (Node d e h l r)
  show ?case
  proof (cases "l = Null")
    case True
    then show ?thesis by simp
  next
    case False
    then have "inorder l \<noteq> []" by (cases l rule: node_cases) auto
    then show ?thesis using False Node.IH(1) by (auto simp: hd_append)
  qed
qed

lemma remove_min_canon:
  "t \<noteq> Null \<Longrightarrow> canon t \<Longrightarrow> height t < 253 \<Longrightarrow> remove_min t = Some (del_min t, hd (inorder t))"
proof (induction t rule: node_induct)
  case Null
  then show ?case by simp
next
  case (Node d e h l r)
  show ?case
  proof (cases "l = Null")
    case True
    then show ?thesis by simp
  next
    case False
    then have ne: "inorder l \<noteq> []" by (cases l rule: node_cases) auto
    have c: "canon l" "canon r" and hh: "height l < 252" "height r < 252"
      using Node.prems by auto
    have 1: "remove_min l = Some (del_min l, hd (inorder l))"
      using False c hh by (intro Node.IH(1)) simp_all
    have 2: "balance_node (Ptr (Node d (e - 1) h (del_min l) r)) = Some (bal d (del_min l) r)"
      using c hh height_del_min_le[of l] by (intro balance_node_canon) (simp_all add: canon_del_min)
    show ?thesis using False ne by (simp add: 1 2 hd_append)
  qed
qed

lemma avl_del_min:
  "avl t \<Longrightarrow> avl (del_min t) \<and> (height (del_min t) = height t \<or> Suc (height (del_min t)) = height t \<or> t = Null)"
proof (induction t rule: node_induct)
  case Null
  then show ?case by simp
next
  case (Node d e h l r)
  have a: "avl l" "avl r" and b: "height l \<le> height r + 1" "height r \<le> height l + 1"
    using Node.prems by auto
  show ?case
  proof (cases "l = Null")
    case True
    then show ?thesis using a b by auto
  next
    case False
    let ?l = "del_min l"
    have IH: "avl ?l" "height ?l = height l \<or> Suc (height ?l) = height l"
      using Node.IH(1) a False by auto
    have A: "avl (bal d ?l r)" using IH a b by (intro avl_bal) auto
    have H: "height (bal d ?l r) = height (Ptr (Node d e h l r)) \<or> Suc (height (bal d ?l r)) = height (Ptr (Node d e h l r))"
    proof (cases "height r = height ?l + 2")
      case True
      then show ?thesis using height_bal_R[of r ?l d] IH a b by auto
    next
      case False
      then have "height (bal d ?l r) = Suc (max (height ?l) (height r))"
        using IH b by (intro height_bal_N) auto
      then show ?thesis using IH b by auto
    qed
    show ?thesis using False A H by simp
  qed
qed

subsection \<open>Removal of the rightmost node\<close>

lemma inorder_Nil_iff [simp]: "inorder t = [] \<longleftrightarrow> t = Null"
  by (cases t rule: node_cases) simp_all

lemma count_del_max: "t \<noteq> Null \<Longrightarrow> Suc (count_nodes (del_max t)) = count_nodes t"
  by (induction t rule: node_induct) auto

lemma canon_del_max: "canon t \<Longrightarrow> canon (del_max t)"
  by (induction t rule: node_induct) (auto simp: canon_bal)

lemma height_del_max_le: "height (del_max t) \<le> height t"
proof (induction t rule: node_induct)
  case Null
  then show ?case by simp
next
  case (Node d e h l r)
  then show ?case using height_bal_le[of d l "del_max r"] by auto
qed

lemma inorder_del_max: "t \<noteq> Null \<Longrightarrow> inorder (del_max t) @ [last (inorder t)] = inorder t"
proof (induction t rule: node_induct)
  case Null
  then show ?case by simp
next
  case (Node d e h l r)
  show ?case
  proof (cases "r = Null")
    case True
    then show ?thesis by simp
  next
    case False
    then show ?thesis using Node.IH(2) by simp
  qed
qed

lemma remove_max_canon:
  "t \<noteq> Null \<Longrightarrow> canon t \<Longrightarrow> height t < 253 \<Longrightarrow> remove_max t = Some (del_max t, last (inorder t))"
proof (induction t rule: node_induct)
  case Null
  then show ?case by simp
next
  case (Node d e h l r)
  show ?case
  proof (cases "r = Null")
    case True
    then show ?thesis by simp
  next
    case False
    have c: "canon l" "canon r" and hh: "height l < 252" "height r < 252"
      using Node.prems by auto
    have 1: "remove_max r = Some (del_max r, last (inorder r))"
      using False c hh by (intro Node.IH(2)) simp_all
    have 2: "balance_node (Ptr (Node d (e - 1) h l (del_max r))) = Some (bal d l (del_max r))"
      using c hh height_del_max_le[of r] by (intro balance_node_canon) (simp_all add: canon_del_max)
    show ?thesis using False by (simp add: 1 2)
  qed
qed

lemma avl_del_max:
  "avl t \<Longrightarrow> avl (del_max t) \<and> (height (del_max t) = height t \<or> Suc (height (del_max t)) = height t \<or> t = Null)"
proof (induction t rule: node_induct)
  case Null
  then show ?case by simp
next
  case (Node d e h l r)
  have a: "avl l" "avl r" and b: "height l \<le> height r + 1" "height r \<le> height l + 1"
    using Node.prems by auto
  show ?case
  proof (cases "r = Null")
    case True
    then show ?thesis using a b by auto
  next
    case False
    let ?r = "del_max r"
    have IH: "avl ?r" "height ?r = height r \<or> Suc (height ?r) = height r"
      using Node.IH(2) a False by auto
    have A: "avl (bal d l ?r)" using IH a b by (intro avl_bal) auto
    have H: "height (bal d l ?r) = height (Ptr (Node d e h l r)) \<or> Suc (height (bal d l ?r)) = height (Ptr (Node d e h l r))"
    proof (cases "height l = height ?r + 2")
      case True
      then show ?thesis using height_bal_L[of l ?r d] IH a b by auto
    next
      case False
      then have "height (bal d l ?r) = Suc (max (height l) (height ?r))"
        using IH b by (intro height_bal_N) auto
      then show ?thesis using IH b by auto
    qed
    show ?thesis using False A H by simp
  qed
qed

subsection \<open>Removal by key\<close>

lemma excise_iff: "excise xs v xs' \<longleftrightarrow> (\<exists>ys zs. xs = ys @ v # zs \<and> xs' = ys @ zs)"
proof (induction xs arbitrary: xs')
  case Nil
  then show ?case by simp
next
  case (Cons x xs)
  show ?case
  proof
    assume "excise (x # xs) v xs'"
    then consider (here) "x = v" "xs' = xs"
      | (later) ys' where "xs' = x # ys'" "excise xs v ys'"
      by (auto split: list.splits)
    then show "\<exists>ys zs. x # xs = ys @ v # zs \<and> xs' = ys @ zs"
    proof cases
      case here
      then have "x # xs = [] @ v # xs \<and> xs' = [] @ xs" by simp
      then show ?thesis by blast
    next
      case later
      then obtain ys zs where "xs = ys @ v # zs" "ys' = ys @ zs" using Cons.IH by blast
      then have "x # xs = (x # ys) @ v # zs \<and> xs' = (x # ys) @ zs" using later by simp
      then show ?thesis by blast
    qed
  next
    assume "\<exists>ys zs. x # xs = ys @ v # zs \<and> xs' = ys @ zs"
    then obtain ys zs where s: "x # xs = ys @ v # zs" "xs' = ys @ zs" by blast
    show "excise (x # xs) v xs'"
    proof (cases ys)
      case Nil
      then show ?thesis using s by simp
    next
      case (Cons a as)
      then have "xs = as @ v # zs" "xs' = x # (as @ zs)" using s by simp_all
      moreover from this have "excise xs v (as @ zs)" using Cons.IH by blast
      ultimately show ?thesis by simp
    qed
  qed
qed

lemma excise_mid: "excise (ys @ v # zs) v (ys @ zs)"
  unfolding excise_iff by blast

lemma excise_appendL: "excise xs v xs' \<Longrightarrow> excise (as @ xs) v (as @ xs')"
  unfolding excise_iff by (metis append.assoc)

lemma excise_appendR: "excise xs v xs' \<Longrightarrow> excise (xs @ bs) v (xs' @ bs)"
  unfolding excise_iff by (metis append.assoc append_Cons)

lemma excise_length: "excise xs v xs' \<Longrightarrow> length xs = Suc (length xs')"
  unfolding excise_iff by auto

lemma excise_set: "excise xs v xs' \<Longrightarrow> v \<in> set xs"
  unfolding excise_iff by auto

lemma excise_sorted: "excise xs v xs' \<Longrightarrow> sorted_le cmp xs \<Longrightarrow> sorted_le cmp xs'"
  unfolding excise_iff by (auto simp: sorted_le_append sorted_le_Cons)

lemma canon_del: "canon t \<Longrightarrow> canon (del cmp key t)"
  by (induction t rule: node_induct) (auto simp: canon_bal canon_del_min canon_del_max)

lemma height_del_le: "height (del cmp key t) \<le> height t"
proof (induction t rule: node_induct)
  case Null
  then show ?case by simp
next
  case (Node d e h l r)
  show ?case
    using Node.IH height_bal_le[of d l "del cmp key r"] height_bal_le[of d "del cmp key l" r]
      height_bal_le[of "hd (inorder r)" l "del_min r"] height_bal_le[of "last (inorder l)" "del_max l" r]
      height_del_min_le[of r] height_del_max_le[of l]
    by (simp del: height_0_iff) linarith
qed

lemma found_equiv: "found cmp key t = Some v \<Longrightarrow> v \<in> set (inorder t) \<and> equiv_under cmp v key"
  by (induction t rule: node_induct) (auto simp: equiv_under_def split: if_splits)

lemma found_absent:
  "\<forall>v\<in>set (inorder t). \<not> equiv_under cmp v key \<Longrightarrow> found cmp key t = None"
  by (induction t rule: node_induct) (auto simp: equiv_under_def)

lemma found_present:
  assumes "strict_weak cmp"
  shows "sorted_le cmp (inorder t) \<Longrightarrow> \<exists>v\<in>set (inorder t). equiv_under cmp v key \<Longrightarrow> found cmp key t \<noteq> None"
proof (induction t rule: node_induct)
  case Null
  then show ?case by simp
next
  case (Node d e h l r)
  have s: "sorted_le cmp (inorder l)" "sorted_le cmp (inorder r)"
    and ld: "\<forall>a\<in>set (inorder l). \<not> cmp d a" and rd: "\<forall>b\<in>set (inorder r). \<not> cmp b d"
    using Node.prems(1) by (auto simp: sorted_le_append sorted_le_Cons)
  from Node.prems(2) obtain v where v: "v \<in> set (inorder (Ptr (Node d e h l r)))" "equiv_under cmp v key"
    by blast
  show ?case
  proof (cases "cmp d key")
    case True
    have "v \<noteq> d" using v True by (auto simp: equiv_under_def)
    moreover have "v \<notin> set (inorder l)"
    proof
      assume "v \<in> set (inorder l)"
      then have "\<not> cmp d v" using ld by blast
      moreover have "\<not> cmp v key" using v by (simp add: equiv_under_def)
      ultimately have "\<not> cmp d key" using sw_negtrans[OF assms] by blast
      then show False using True by simp
    qed
    ultimately have "v \<in> set (inorder r)" using v by auto
    then show ?thesis using True Node.IH(2)[OF s(2)] v by auto
  next
    case False
    show ?thesis
    proof (cases "cmp key d")
      case True
      have "v \<noteq> d" using v True by (auto simp: equiv_under_def)
      moreover have "v \<notin> set (inorder r)"
      proof
        assume "v \<in> set (inorder r)"
        then have "\<not> cmp v d" using rd by blast
        moreover have "\<not> cmp key v" using v by (simp add: equiv_under_def)
        ultimately have "\<not> cmp key d" using sw_negtrans[OF assms] by blast
        then show False using True by simp
      qed
      ultimately have "v \<in> set (inorder l)" using v by auto
      then show ?thesis using True False Node.IH(1)[OF s(1)] v by auto
    next
      case False
      then show ?thesis using \<open>\<not> cmp d key\<close> by simp
    qed
  qed
qed

lemma del_unchanged:
  "canon t \<Longrightarrow> avl t \<Longrightarrow> found cmp key t = None \<Longrightarrow> del cmp key t = t"
proof (induction t rule: node_induct)
  case Null
  then show ?case by simp
next
  case (Node d e h l r)
  have m: "bal d l r = Ptr (Node d e h l r)"
    using Node.prems by (simp add: bal_balanced mk_def)
  show ?case using Node m by (auto split: if_splits)
qed

lemma inorder_del:
  "found cmp key t = Some v \<Longrightarrow> excise (inorder t) v (inorder (del cmp key t))"
proof (induction t rule: node_induct)
  case Null
  then show ?case by simp
next
  case (Node d e h l r)
  show ?case
  proof (cases "cmp d key")
    case True
    then have "excise (inorder r) v (inorder (del cmp key r))" using Node by simp
    then have "excise (inorder l @ [d] @ inorder r) v (inorder l @ [d] @ inorder (del cmp key r))"
      by (intro excise_appendL)
    then show ?thesis using True by simp
  next
    case nr: False
    show ?thesis
    proof (cases "cmp key d")
      case True
      then have "excise (inorder l) v (inorder (del cmp key l))" using Node nr by simp
      then have "excise (inorder l @ d # inorder r) v (inorder (del cmp key l) @ d # inorder r)"
        by (intro excise_appendR)
      then show ?thesis using True nr by simp
    next
      case False
      then have v: "v = d" using Node.prems nr by simp
      consider (leaf) "l = Null" "r = Null" | (R) "\<not> (l = Null \<and> r = Null)" "height l \<le> height r"
        | (L) "\<not> height l \<le> height r" by blast
      then show ?thesis
      proof cases
        case leaf
        then show ?thesis using False nr v excise_mid[of "[]" d "[]"] by simp
      next
        case R
        then have "r \<noteq> Null" by auto
        then have "inorder l @ hd (inorder r) # inorder (del_min r) = inorder l @ inorder r"
          using inorder_del_min[of r] by simp
        then show ?thesis using False nr v R excise_mid[of "inorder l" d "inorder r"] by auto
      next
        case L
        then have ne: "l \<noteq> Null" by auto
        have "inorder (del cmp key (Ptr (Node d e h l r))) = (inorder (del_max l) @ [last (inorder l)]) @ inorder r"
          using False nr L ne by simp
        also have "\<dots> = inorder l @ inorder r"
          by (simp only: inorder_del_max[OF ne])
        finally have "inorder (del cmp key (Ptr (Node d e h l r))) = inorder l @ inorder r" .
        then show ?thesis unfolding v using excise_mid[of "inorder l" d "inorder r"] by simp
      qed
    qed
  qed
qed

lemma found_index_lt: "found_index cmp key t = Some i \<Longrightarrow> i < count_nodes t"
  by (induction t arbitrary: i rule: node_induct) (auto split: if_splits)

lemma found_index_found:
  "found_index cmp key t = Some i \<Longrightarrow> found cmp key t = Some (inorder t ! i)"
proof (induction t arbitrary: i rule: node_induct)
  case Null
  then show ?case by simp
next
  case (Node d e h l r)
  show ?case
  proof (cases "cmp d key")
    case True
    then obtain j where j: "found_index cmp key r = Some j" "i = count_nodes l + 1 + j"
      using Node.prems by auto
    have "(inorder l @ d # inorder r) ! (length (inorder l) + Suc j) = inorder r ! j"
      by (simp only: nth_append_length_plus nth_Cons_Suc)
    then show ?thesis using True j Node.IH(2)[OF j(1)] by simp
  next
    case nr: False
    show ?thesis
    proof (cases "cmp key d")
      case True
      then have f: "found_index cmp key l = Some i" using Node.prems nr by simp
      then have "i < length (inorder l)" using found_index_lt[OF f] by simp
      then have "(inorder l @ d # inorder r) ! i = inorder l ! i" by (simp only: nth_append if_True)
      then show ?thesis using True nr Node.IH(1)[OF f] by simp
    next
      case False
      then have i: "i = length (inorder l)" using Node.prems nr by simp
      have "(inorder l @ d # inorder r) ! length (inorder l) = d" by (simp only: nth_append_length)
      then show ?thesis unfolding i using False nr by simp
    qed
  qed
qed

lemma found_index_present: "found cmp key t = Some v \<Longrightarrow> \<exists>i. found_index cmp key t = Some i"
  by (induction t rule: node_induct) (auto split: if_splits)

lemma inorder_del_match:
  assumes "\<not> cmp d key" "\<not> cmp key d"
  shows "inorder (del cmp key (Ptr (Node d e h l r))) = inorder l @ inorder r"
proof -
  consider (leaf) "l = Null" "r = Null" | (R) "\<not> (l = Null \<and> r = Null)" "height l \<le> height r"
    | (L) "\<not> height l \<le> height r" by blast
  then show ?thesis
  proof cases
    case leaf
    then show ?thesis using assms by simp
  next
    case R
    then have ne: "r \<noteq> Null" by auto
    have "inorder (del cmp key (Ptr (Node d e h l r))) = inorder l @ (hd (inorder r) # inorder (del_min r))"
      using assms R ne by simp
    also have "\<dots> = inorder l @ inorder r" by (simp only: inorder_del_min[OF ne])
    finally show ?thesis .
  next
    case L
    then have ne: "l \<noteq> Null" by auto
    have "inorder (del cmp key (Ptr (Node d e h l r))) = (inorder (del_max l) @ [last (inorder l)]) @ inorder r"
      using assms L ne by simp
    also have "\<dots> = inorder l @ inorder r" by (simp only: inorder_del_max[OF ne])
    finally show ?thesis .
  qed
qed

lemma inorder_del_index:
  "found_index cmp key t = Some i \<Longrightarrow>
   inorder (del cmp key t) = take i (inorder t) @ drop (Suc i) (inorder t)"
proof (induction t arbitrary: i rule: node_induct)
  case Null
  then show ?case by simp
next
  case (Node d e h l r)
  show ?case
  proof (cases "cmp d key")
    case True
    then obtain j where j: "found_index cmp key r = Some j" "i = count_nodes l + 1 + j"
      using Node.prems by auto
    have "inorder (del cmp key (Ptr (Node d e h l r))) = inorder l @ d # inorder (del cmp key r)"
      using True by simp
    also have "\<dots> = inorder l @ d # (take j (inorder r) @ drop (Suc j) (inorder r))"
      using Node.IH(2)[OF j(1)] by simp
    also have "\<dots> = take i (inorder l @ d # inorder r) @ drop (Suc i) (inorder l @ d # inorder r)"
      unfolding j(2) by simp
    finally show ?thesis by simp
  next
    case nr: False
    show ?thesis
    proof (cases "cmp key d")
      case True
      then have f: "found_index cmp key l = Some i" using Node.prems nr by simp
      have lt: "i < length (inorder l)" using found_index_lt[OF f] by simp
      have "inorder (del cmp key (Ptr (Node d e h l r))) = inorder (del cmp key l) @ d # inorder r"
        using True nr by simp
      also have "\<dots> = (take i (inorder l) @ drop (Suc i) (inorder l)) @ d # inorder r"
        using Node.IH(1)[OF f] by simp
      also have "\<dots> = take i (inorder l @ d # inorder r) @ drop (Suc i) (inorder l @ d # inorder r)"
        using lt by simp
      finally show ?thesis by simp
    next
      case False
      then have i: "i = length (inorder l)" using Node.prems nr by simp
      have "inorder (del cmp key (Ptr (Node d e h l r))) = inorder l @ inorder r"
        using nr False by (rule inorder_del_match)
      also have "\<dots> = take i (inorder l @ d # inorder r) @ drop (Suc i) (inorder l @ d # inorder r)"
        unfolding i by simp
      finally show ?thesis by simp
    qed
  qed
qed

lemma remove_rec_canon:
  "canon t \<Longrightarrow> height t < 252 \<Longrightarrow>
   remove_rec cmp t key val wd =
     Some (del cmp key t, (case found cmp key t of None \<Rightarrow> val | Some v \<Rightarrow> v), wd)"
proof (induction t rule: node_induct)
  case Null
  then show ?case by simp
next
  case (Node d e h l r)
  have c: "canon l" "canon r" and hh: "height l < 251" "height r < 251"
    using Node.prems by auto
  have d0: "depth_or_0 l = of_nat (height l)" "depth_or_0 r = of_nat (height r)"
    using c by (simp_all add: depth_or_0_canon)
  show ?case
  proof (cases "cmp d key")
    case True
    have 1: "remove_rec cmp r key val wd = Some (del cmp key r, (case found cmp key r of None \<Rightarrow> val | Some v \<Rightarrow> v), wd)"
      using c hh by (intro Node.IH(2)) simp_all
    have 2: "balance_node (Ptr (Node d e' h l (del cmp key r))) = Some (bal d l (del cmp key r))" for e'
      using c hh height_del_le[of cmp key r] by (intro balance_node_canon) (simp_all add: canon_del)
    show ?thesis using True by (simp add: 1 2)
  next
    case nr: False
    show ?thesis
    proof (cases "cmp key d")
      case True
      have 1: "remove_rec cmp l key val wd = Some (del cmp key l, (case found cmp key l of None \<Rightarrow> val | Some v \<Rightarrow> v), wd)"
        using c hh by (intro Node.IH(1)) simp_all
      have 2: "balance_node (Ptr (Node d e' h (del cmp key l) r)) = Some (bal d (del cmp key l) r)" for e'
        using c hh height_del_le[of cmp key l] by (intro balance_node_canon) (simp_all add: canon_del)
      show ?thesis using True nr by (simp add: 1 2)
    next
      case False
      have z: "depth_or_0 r = 0 \<longleftrightarrow> r = Null" "depth_or_0 l = 0 \<longleftrightarrow> l = Null"
        using hh by (simp_all add: d0 zero8)
      have le: "depth_or_0 l \<le> depth_or_0 r \<longleftrightarrow> height l \<le> height r"
        using hh by (simp add: d0 le8)
      consider (leaf) "l = Null" "r = Null" | (R) "\<not> (l = Null \<and> r = Null)" "height l \<le> height r"
        | (L) "\<not> height l \<le> height r" by blast
      then show ?thesis
      proof cases
        case leaf
        then show ?thesis using False nr by (simp add: depth_or_0_def)
      next
        case R
        then have ne: "r \<noteq> Null" by auto
        have 1: "remove_min r = Some (del_min r, hd (inorder r))"
          using ne c hh by (intro remove_min_canon) simp_all
        have 2: "balance_node (Ptr (Node d' e h l (del_min r))) = Some (bal d' l (del_min r))" for d'
          using c hh height_del_min_le[of r] by (intro balance_node_canon) (simp_all add: canon_del_min)
        show ?thesis using False nr R ne by (simp add: z le 1 2 Let_def)
      next
        case L
        then have ne: "l \<noteq> Null" by auto
        have 1: "remove_max l = Some (del_max l, last (inorder l))"
          using ne c hh by (intro remove_max_canon) simp_all
        have 2: "balance_node (Ptr (Node d' e h (del_max l) r)) = Some (bal d' (del_max l) r)" for d'
          using c hh height_del_max_le[of l] by (intro balance_node_canon) (simp_all add: canon_del_max)
        show ?thesis using False nr L ne by (simp add: z le 1 2 Let_def)
      qed
    qed
  qed
qed

lemma avl_del:
  "avl t \<Longrightarrow> avl (del cmp key t) \<and> (height (del cmp key t) = height t \<or> Suc (height (del cmp key t)) = height t)"
proof (induction t rule: node_induct)
  case Null
  then show ?case by simp
next
  case (Node d e h l r)
  have a: "avl l" "avl r" and b: "height l \<le> height r + 1" "height r \<le> height l + 1"
    using Node.prems by auto
  let ?t = "Ptr (Node d e h l r)"
  have key_step: "avl (bal d' l' r') \<and> (height (bal d' l' r') = height ?t \<or> Suc (height (bal d' l' r')) = height ?t)"
    if "avl l'" "avl r'"
      and "(l' = l \<and> (height r' = height r \<or> Suc (height r') = height r)) \<or>
           (r' = r \<and> (height l' = height l \<or> Suc (height l') = height l))"
    for d' l' r'
  proof -
    have A: "avl (bal d' l' r')" using that b by (intro avl_bal) auto
    consider (N) "height r' \<noteq> height l' + 2" "height l' \<noteq> height r' + 2"
      | (R) "height r' = height l' + 2" | (L) "height l' = height r' + 2" by blast
    then have "height (bal d' l' r') = height ?t \<or> Suc (height (bal d' l' r')) = height ?t"
    proof cases
      case N
      then have "height (bal d' l' r') = Suc (max (height l') (height r'))" by (intro height_bal_N)
      then show ?thesis using that(3) b by auto
    next
      case R
      then show ?thesis using height_bal_R[of r' l' d'] that b by auto
    next
      case L
      then show ?thesis using height_bal_L[of l' r' d'] that b by auto
    qed
    then show ?thesis using A by simp
  qed
  show ?case
  proof (cases "cmp d key")
    case True
    then show ?thesis using key_step[of l "del cmp key r" d] Node.IH(2) a by simp
  next
    case nr: False
    show ?thesis
    proof (cases "cmp key d")
      case True
      then show ?thesis using nr key_step[of "del cmp key l" r d] Node.IH(1) a by simp
    next
      case False
      consider (leaf) "l = Null" "r = Null" | (R) "\<not> (l = Null \<and> r = Null)" "height l \<le> height r"
        | (L) "\<not> height l \<le> height r" by blast
      then show ?thesis
      proof cases
        case leaf
        then show ?thesis using False nr by simp
      next
        case R
        then have ne: "r \<noteq> Null" by auto
        show ?thesis using False nr R ne key_step[of l "del_min r" "hd (inorder r)"] avl_del_min[of r] a
          by auto
      next
        case L
        then have ne: "l \<noteq> Null" by auto
        show ?thesis using False nr L ne key_step[of "del_max l" r "last (inorder l)"] avl_del_max[of l] a
          by auto
      qed
    qed
  qed
qed

subsection \<open>The container\<close>

lemma canon_depth_ok: "canon t \<Longrightarrow> height t < 256 \<Longrightarrow> depth_ok t"
proof (induction t rule: node_induct)
  case Null
  then show ?case by simp
next
  case (Node d e h l r)
  have "unat (of_nat (Suc (max (height l) (height r))) :: uchar) = Suc (max (height l) (height r))"
    using Node.prems by (intro unat8) simp
  then show ?case using Node by (simp del: of_nat_Suc)
qed

lemma canon_size_ok: "canon t \<Longrightarrow> count_nodes t \<le> 2 ^ 64 \<Longrightarrow> size_ok t"
proof (induction t rule: node_induct)
  case Null
  then show ?case by simp
next
  case (Node d e h l r)
  have c: "canon l" "canon r" using Node.prems by auto
  have "unat (of_nat (count_nodes l + count_nodes r) :: size_t) = count_nodes l + count_nodes r"
    using Node.prems by (intro unat64) simp
  moreover have "in_left_subtree (Node d e h l r) = of_nat (count_nodes l)"
    "in_right_subtree (Node d e h l r) = of_nat (count_nodes r)"
    using c elems_or_0_canon[of l] elems_or_0_canon[of r]
    by (simp_all add: in_left_subtree_def in_right_subtree_def elems_or_0_def)
  ultimately show ?case using Node by (simp del: of_nat_add, simp)
qed

lemma invar_new: "invar AVLTree_new"
  by (simp add: invar_def AVLTree_new_def)

lemma ordered_new: "ordered cmp AVLTree_new"
  by (simp add: ordered_def AVLTree_new_def)

lemma invar_height: "invar t \<Longrightarrow> height (root t) < 130"
proof -
  assume i: "invar t"
  have "unat (element_count t) < 2 ^ 64" using unsigned_less[of "element_count t", where ?'a=nat] by simp
  then have "count_nodes (root t) < 2 ^ 64" using i by (simp add: invar_def)
  then show ?thesis using i avl_height_small by (auto simp: invar_def)
qed

lemma insert_avl_eq:
  assumes "invar t"
  shows "insert_avl cmp x t =
     Some (of_nat (rank_of cmp x (root t)),
           \<lparr>root = ins cmp x (root t), element_count = element_count t + 1\<rparr>)"
proof -
  have "insert_rec cmp (root t) x 0 = Some (ins cmp x (root t), 0 + of_nat (rank_of cmp x (root t)))"
    using assms invar_height[OF assms] by (intro insert_rec_canon) (auto simp: invar_def)
  then show ?thesis by (simp add: insert_avl_def)
qed

lemma unat_Suc64: "unat (w :: size_t) < 2 ^ 64 - 1 \<Longrightarrow> unat (w + 1) = Suc (unat w)"
  using unat_add64[of w 1] by simp

lemma insert_avl_invar:
  assumes "invar t" "unat (element_count t) < 2 ^ 64 - 1"
  shows "invar \<lparr>root = ins cmp x (root t), element_count = element_count t + 1\<rparr>"
  using assms avl_ins[of "root t" cmp x] unat_Suc64[OF assms(2)]
  by (simp add: invar_def canon_ins)

lemma insert_avl_ordered:
  assumes "strict_weak cmp" "ordered cmp t"
  shows "ordered cmp \<lparr>root = ins cmp x (root t), element_count = c\<rparr>"
  using assms by (simp add: ordered_def inorder_ins_sorted sorted_le_stable_insert)

lemma remove_avl_eq:
  assumes "invar t"
  shows "remove_avl cmp dflt key t =
     Some ((case found cmp key (root t) of None \<Rightarrow> dflt | Some v \<Rightarrow> v),
           \<lparr>root = del cmp key (root t), element_count = element_count t\<rparr>)"
proof -
  have "remove_rec cmp (root t) key dflt False =
     Some (del cmp key (root t), (case found cmp key (root t) of None \<Rightarrow> dflt | Some v \<Rightarrow> v), False)"
    using assms invar_height[OF assms] by (intro remove_rec_canon) (auto simp: invar_def)
  then show ?thesis by (simp add: remove_avl_def)
qed

lemma count_del_le: 
  assumes "canon t" "avl t"
  shows "count_nodes (del cmp key t) \<le> count_nodes t"
proof (cases "found cmp key t")
  case None
  then show ?thesis using assms by (simp add: del_unchanged)
next
  case (Some v)
  then show ?thesis using excise_length[OF inorder_del[OF Some]] by simp
qed

lemma remove_avl_invar:
  assumes "invar t"
  shows "invar \<lparr>root = del cmp key (root t), element_count = element_count t\<rparr>"
  using assms avl_del[of "root t" cmp key] count_del_le[of "root t" cmp key]
  by (auto simp add: invar_def canon_del)

lemma remove_avl_ordered:
  assumes "invar t" "ordered cmp t"
  shows "ordered cmp \<lparr>root = del cmp key (root t), element_count = c\<rparr>"
proof (cases "found cmp key (root t)")
  case None
  then show ?thesis using assms by (simp add: ordered_def invar_def del_unchanged)
next
  case (Some v)
  then show ?thesis using assms excise_sorted[OF inorder_del[OF Some]] by (simp add: ordered_def)
qed

lemma exec_invar:
  "invar t \<Longrightarrow> unat (element_count t) + n_inserts ops < 2 ^ 64 \<Longrightarrow>
   \<exists>t'. exec cmp dflt ops t = Some t' \<and> invar t' \<and>
        unat (element_count t') = unat (element_count t) + n_inserts ops"
proof (induction ops arbitrary: t)
  case Nil
  then show ?case by simp
next
  case (Cons a ops)
  show ?case
  proof (cases a)
    case (Insert x)
    let ?t = "\<lparr>root = ins cmp x (root t), element_count = element_count t + 1\<rparr>"
    have b: "unat (element_count t) < 2 ^ 64 - 1" using Cons.prems Insert by simp
    have 1: "apply_op cmp dflt a t = Some ?t"
      using Insert Cons.prems by (simp add: insert_avl_eq)
    have 2: "invar ?t" using Cons.prems b by (intro insert_avl_invar)
    have 3: "unat (element_count ?t) = Suc (unat (element_count t))" using unat_Suc64[OF b] by simp
    have "\<exists>t'. exec cmp dflt ops ?t = Some t' \<and> invar t' \<and>
        unat (element_count t') = unat (element_count ?t) + n_inserts ops"
      using 2 3 Cons.prems Insert by (intro Cons.IH) simp_all
    then show ?thesis using 1 3 Insert by auto
  next
    case (Remove k)
    let ?t = "\<lparr>root = del cmp k (root t), element_count = element_count t\<rparr>"
    have 1: "apply_op cmp dflt a t = Some ?t"
      using Remove Cons.prems by (simp add: remove_avl_eq)
    have 2: "invar ?t" using Cons.prems by (intro remove_avl_invar)
    have "\<exists>t'. exec cmp dflt ops ?t = Some t' \<and> invar t' \<and>
        unat (element_count t') = unat (element_count ?t) + n_inserts ops"
      using 2 Cons.prems Remove by (intro Cons.IH) simp_all
    then show ?thesis using 1 Remove by auto
  qed
qed

lemma exec_ordered:
  assumes "strict_weak cmp"
  shows "invar t \<Longrightarrow> ordered cmp t \<Longrightarrow> unat (element_count t) + n_inserts ops < 2 ^ 64 \<Longrightarrow>
   exec cmp dflt ops t = Some t' \<Longrightarrow> ordered cmp t'"
proof (induction ops arbitrary: t)
  case Nil
  then show ?case by simp
next
  case (Cons a ops)
  show ?case
  proof (cases a)
    case (Insert x)
    let ?t = "\<lparr>root = ins cmp x (root t), element_count = element_count t + 1\<rparr>"
    have b: "unat (element_count t) < 2 ^ 64 - 1" using Cons.prems Insert by simp
    have 1: "apply_op cmp dflt a t = Some ?t"
      using Insert Cons.prems by (simp add: insert_avl_eq)
    have 2: "invar ?t" using Cons.prems b by (intro insert_avl_invar)
    have 3: "unat (element_count ?t) = Suc (unat (element_count t))" using unat_Suc64[OF b] by simp
    have 4: "ordered cmp ?t" using assms Cons.prems by (intro insert_avl_ordered)
    have e: "exec cmp dflt ops ?t = Some t'" using Cons.prems(4) 1 by simp
    have "unat (element_count ?t) + n_inserts ops < 2 ^ 64" using 3 Cons.prems(3) Insert by simp
    then show ?thesis using Cons.IH[OF 2 4 _ e] by simp
  next
    case (Remove k)
    let ?t = "\<lparr>root = del cmp k (root t), element_count = element_count t\<rparr>"
    have 1: "apply_op cmp dflt a t = Some ?t"
      using Remove Cons.prems by (simp add: remove_avl_eq)
    have 2: "invar ?t" using Cons.prems by (intro remove_avl_invar)
    have 4: "ordered cmp ?t" using Cons.prems by (intro remove_avl_ordered)
    have e: "exec cmp dflt ops ?t = Some t'" using Cons.prems(4) 1 by simp
    have "unat (element_count ?t) + n_inserts ops < 2 ^ 64" using Cons.prems(3) Remove by simp
    then show ?thesis using Cons.IH[OF 2 4 _ e] by simp
  qed
qed

lemma reachable_invar:
  assumes "n_inserts ops < 2 ^ 64"
  shows "\<exists>t. exec cmp dflt ops AVLTree_new = Some t \<and> invar t \<and> unat (element_count t) = n_inserts ops"
  using exec_invar[OF invar_new, of ops cmp dflt] assms by (simp add: AVLTree_new_def)

lemma reachable_ordered:
  assumes "strict_weak cmp" "n_inserts ops < 2 ^ 64" "exec cmp dflt ops AVLTree_new = Some t"
  shows "ordered cmp t"
  using exec_ordered[OF assms(1) invar_new ordered_new _ assms(3)] assms(2) by (simp add: AVLTree_new_def)

subsection \<open>Rank of an inserted element, sequences of insertions\<close>

lemma nth_ins: "inorder (ins cmp x t) ! rank_of cmp x t = x"
proof -
  have "length (take (rank_of cmp x t) (inorder t)) = rank_of cmp x t"
    using rank_of_le[of cmp x t] by simp
  then show ?thesis by (simp add: inorder_ins nth_append)
qed

lemma get_Kth_in_range:
  assumes "canon (root t)" "count_nodes (root t) \<le> unat (element_count t)" "k < count_nodes (root t)"
  shows "get_Kth dflt (of_nat k) t = Some (inorder (root t) ! k)"
proof -
  have b: "unat (element_count t) < 2 ^ 64"
    using unsigned_less[of "element_count t", where ?'a=nat] by simp
  then have u: "unat (of_nat k :: size_t) = k" using assms by (intro unat64) simp
  have "get_Kth_rec (root t) (of_nat k) 0 dflt = inorder (root t) ! (unat (of_nat k :: size_t) - unat (0 :: size_t))"
    using assms b u by (intro get_Kth_rec_canon) simp_all
  moreover have "(of_nat k :: size_t) < element_count t"
    using assms u by (simp add: word_less_nat_alt)
  ultimately show ?thesis using u by (simp add: get_Kth_def)
qed

lemma length_stable_insert [simp]: "length (stable_insert cmp x xs) = Suc (length xs)"
  by (induction xs) simp_all

lemma length_foldl_stable_insert:
  "length (foldl (\<lambda>acc x. stable_insert cmp x acc) ys xs) = length ys + length xs"
  by (induction xs arbitrary: ys) simp_all

lemma length_stable_sort [simp]: "length (stable_sort cmp xs) = length xs"
  by (simp add: stable_sort_def length_foldl_stable_insert)

lemma exec_inserts:
  assumes "strict_weak cmp"
  shows "invar t \<Longrightarrow> ordered cmp t \<Longrightarrow> unat (element_count t) + length xs < 2 ^ 64 \<Longrightarrow>
   \<exists>t'. exec cmp dflt (map Insert xs) t = Some t' \<and> invar t' \<and>
        inorder (root t') = foldl (\<lambda>acc x. stable_insert cmp x acc) (inorder (root t)) xs"
proof (induction xs arbitrary: t)
  case Nil
  then show ?case by simp
next
  case (Cons x xs)
  let ?t = "\<lparr>root = ins cmp x (root t), element_count = element_count t + 1\<rparr>"
  have b: "unat (element_count t) < 2 ^ 64 - 1" using Cons.prems by simp
  have 1: "apply_op cmp dflt (Insert x) t = Some ?t"
    using Cons.prems by (simp add: insert_avl_eq)
  have 2: "invar ?t" using Cons.prems b by (intro insert_avl_invar)
  have 3: "unat (element_count ?t) = Suc (unat (element_count t))" using unat_Suc64[OF b] by simp
  have 4: "ordered cmp ?t" using assms Cons.prems by (intro insert_avl_ordered)
  have 5: "inorder (root ?t) = stable_insert cmp x (inorder (root t))"
    using assms Cons.prems(2) by (simp add: ordered_def inorder_ins_sorted)
  have "\<exists>t'. exec cmp dflt (map Insert xs) ?t = Some t' \<and> invar t' \<and>
        inorder (root t') = foldl (\<lambda>acc x. stable_insert cmp x acc) (inorder (root ?t)) xs"
    using 2 4 3 Cons.prems(3) by (intro Cons.IH) simp_all
  moreover have "exec cmp dflt (map Insert (x # xs)) t = exec cmp dflt (map Insert xs) ?t"
    using 1 by (simp del: apply_op.simps)
  ultimately show ?case using 5 by simp
qed

subsection \<open>The stable sort\<close>

lemma mset_stable_insert [simp]: "mset (stable_insert cmp x xs) = add_mset x (mset xs)"
  by (induction xs) simp_all

lemma mset_foldl_stable_insert:
  "mset (foldl (\<lambda>acc x. stable_insert cmp x acc) ys xs) = mset ys + mset xs"
  by (induction xs arbitrary: ys) simp_all

lemma mset_stable_sort: "mset (stable_sort cmp xs) = mset xs"
  by (simp add: stable_sort_def mset_foldl_stable_insert)

lemma sorted_foldl_stable_insert:
  assumes "strict_weak cmp"
  shows "sorted_le cmp ys \<Longrightarrow> sorted_le cmp (foldl (\<lambda>acc x. stable_insert cmp x acc) ys xs)"
  by (induction xs arbitrary: ys) (simp_all add: sorted_le_stable_insert[OF assms])

lemma sorted_stable_sort: "strict_weak cmp \<Longrightarrow> sorted_le cmp (stable_sort cmp xs)"
  by (simp add: stable_sort_def sorted_foldl_stable_insert)

lemma equiv_under_trans:
  "strict_weak cmp \<Longrightarrow> equiv_under cmp a b \<Longrightarrow> equiv_under cmp b c \<Longrightarrow> equiv_under cmp a c"
  unfolding equiv_under_def using sw_negtrans by metis

lemma equiv_under_sym: "equiv_under cmp a b \<Longrightarrow> equiv_under cmp b a"
  by (simp add: equiv_under_def)

lemma filter_stable_insert:
  assumes "strict_weak cmp"
  shows "sorted_le cmp ys \<Longrightarrow>
    filter (\<lambda>y. equiv_under cmp y k) (stable_insert cmp x ys) =
    filter (\<lambda>y. equiv_under cmp y k) ys @ (if equiv_under cmp x k then [x] else [])"
proof (induction ys)
  case Nil
  then show ?case by simp
next
  case (Cons y ys)
  show ?case
  proof (cases "cmp x y")
    case False
    then show ?thesis using Cons by (simp add: sorted_le_Cons)
  next
    case True
    have gt: "cmp x b" if "b \<in> set (y # ys)" for b
    proof (cases "b = y")
      case True
      then show ?thesis using \<open>cmp x y\<close> by simp
    next
      case False
      then have "\<not> cmp b y" using that Cons.prems by (auto simp: sorted_le_Cons)
      then show ?thesis using \<open>cmp x y\<close> sw_negtrans[OF assms, of x b y] by blast
    qed
    show ?thesis
    proof (cases "equiv_under cmp x k")
      case False
      then show ?thesis using True by simp
    next
      case xk: True
      have "\<not> equiv_under cmp b k" if "b \<in> set (y # ys)" for b
      proof
        assume "equiv_under cmp b k"
        then have "equiv_under cmp x b"
          using xk equiv_under_trans[OF assms, of x k b] equiv_under_sym[of cmp b k] by blast
        then show False using gt[OF that] by (simp add: equiv_under_def)
      qed
      then have "filter (\<lambda>y. equiv_under cmp y k) (y # ys) = []"
        by (simp only: filter_empty_conv) blast
      then show ?thesis using True xk by simp
    qed
  qed
qed

lemma filter_foldl_stable_insert:
  assumes "strict_weak cmp"
  shows "sorted_le cmp ys \<Longrightarrow>
    filter (\<lambda>y. equiv_under cmp y k) (foldl (\<lambda>acc x. stable_insert cmp x acc) ys xs) =
    filter (\<lambda>y. equiv_under cmp y k) ys @ filter (\<lambda>y. equiv_under cmp y k) xs"
proof (induction xs arbitrary: ys)
  case Nil
  then show ?case by simp
next
  case (Cons x xs)
  have "sorted_le cmp (stable_insert cmp x ys)" using Cons.prems by (rule sorted_le_stable_insert[OF assms])
  then show ?case using Cons.IH[of "stable_insert cmp x ys"] filter_stable_insert[OF assms Cons.prems, of k x]
    by simp
qed

lemma stable_sort_stable:
  "strict_weak cmp \<Longrightarrow>
   filter (\<lambda>y. equiv_under cmp y k) (stable_sort cmp xs) = filter (\<lambda>y. equiv_under cmp y k) xs"
  by (simp add: stable_sort_def filter_foldl_stable_insert)

subsection \<open>No operation fails\<close>

lemma rotate_left_total: "right n \<noteq> Null \<Longrightarrow> \<exists>n'. rotate_left (Ptr n) = Some (Ptr n')"
  by (cases "right n") (simp_all add: rotate_left_def Let_def)

lemma rotate_right_total: "left n \<noteq> Null \<Longrightarrow> \<exists>n'. rotate_right (Ptr n) = Some (Ptr n')"
  by (cases "left n") (simp_all add: rotate_right_def Let_def)

lemma balance_pos: "0 < balance n \<Longrightarrow> right n \<noteq> Null"
  by (auto simp: balance_def depth_or_0_def)

lemma balance_neg: "balance n < 0 \<Longrightarrow> left n \<noteq> Null"
  by (auto simp: balance_def depth_or_0_def)

lemma right_update_depth [simp]: "right (update_depth n) = right n"
  by (simp add: update_depth_def set_depth_def Let_def)

lemma left_update_depth [simp]: "left (update_depth n) = left n"
  by (simp add: update_depth_def set_depth_def Let_def)

lemma balance_node_total: "\<exists>n'. balance_node (Ptr n) = Some (Ptr n')"
proof -
  let ?n = "update_depth n"
  consider (R) "balance ?n = 2" | (L) "balance ?n = - 2" | (N) "balance ?n \<noteq> 2" "balance ?n \<noteq> - 2"
    by blast
  then show ?thesis
  proof cases
    case N
    then show ?thesis by (simp add: balance_node_def Let_def)
  next
    case R
    then have "right n \<noteq> Null" using balance_pos[of ?n] by simp
    then obtain r where r: "right n = Ptr r" by (cases "right n") auto
    show ?thesis
    proof (cases "balance r < 0")
      case True
      then have "left r \<noteq> Null" by (rule balance_neg)
      then obtain r' where r': "rotate_right (Ptr r) = Some (Ptr r')"
        using rotate_right_total by blast
      have "right (set_right ?n (Ptr r')) \<noteq> Null" by (simp add: set_right_def)
      then obtain n' where "rotate_left (Ptr (set_right ?n (Ptr r'))) = Some (Ptr n')"
        using rotate_left_total by blast
      then show ?thesis using R r True r' by (simp add: balance_node_def Let_def)
    next
      case False
      have "right ?n \<noteq> Null" using r by simp
      then obtain n' where "rotate_left (Ptr ?n) = Some (Ptr n')"
        using rotate_left_total by blast
      then show ?thesis using R r False by (simp add: balance_node_def Let_def)
    qed
  next
    case L
    then have "left n \<noteq> Null" using balance_neg[of ?n] by simp
    then obtain l where l: "left n = Ptr l" by (cases "left n") auto
    show ?thesis
    proof (cases "0 < balance l")
      case True
      then have "right l \<noteq> Null" by (rule balance_pos)
      then obtain l' where l': "rotate_left (Ptr l) = Some (Ptr l')"
        using rotate_left_total by blast
      have "left (set_left ?n (Ptr l')) \<noteq> Null" by (simp add: set_left_def)
      then obtain n' where "rotate_right (Ptr (set_left ?n (Ptr l'))) = Some (Ptr n')"
        using rotate_right_total by blast
      then show ?thesis using L l True l' by (simp add: balance_node_def Let_def)
    next
      case False
      have "left ?n \<noteq> Null" using l by simp
      then obtain n' where "rotate_right (Ptr ?n) = Some (Ptr n')"
        using rotate_right_total by blast
      then show ?thesis using L l False by (simp add: balance_node_def Let_def)
    qed
  qed
qed

lemma insert_rec_total: "\<exists>n' p. insert_rec cmp t x pos = Some (Ptr n', p)"
proof (induction t arbitrary: pos rule: node_induct)
  case Null
  then show ?case by simp
next
  case (Node d e h l r)
  show ?case
  proof (cases "cmp x d")
    case True
    obtain l' p where 1: "insert_rec cmp l x pos = Some (Ptr l', p)" using Node.IH(1) by blast
    obtain n' where "balance_node (Ptr (Node d (e + 1) h (Ptr l') r)) = Some (Ptr n')"
      using balance_node_total by blast
    then show ?thesis using True 1 by simp
  next
    case False
    obtain r' p where 1: "insert_rec cmp r x (pos + (in_left_subtree (Node d e h l r) + 1)) = Some (Ptr r', p)"
      using Node.IH(2) by blast
    obtain n' where "balance_node (Ptr (Node d (e + 1) h l (Ptr r'))) = Some (Ptr n')"
      using balance_node_total by blast
    then show ?thesis using False 1 by simp
  qed
qed

lemma remove_min_total: "t \<noteq> Null \<Longrightarrow> \<exists>t' m. remove_min t = Some (t', m)"
proof (induction t rule: node_induct)
  case Null
  then show ?case by simp
next
  case (Node d e h l r)
  show ?case
  proof (cases "l = Null")
    case True
    then show ?thesis by simp
  next
    case False
    then obtain l' m where 1: "remove_min l = Some (l', m)" using Node.IH(1) by blast
    obtain n' where "balance_node (Ptr (Node d (e - 1) h l' r)) = Some (Ptr n')"
      using balance_node_total by blast
    then show ?thesis using False 1 by simp
  qed
qed

lemma remove_max_total: "t \<noteq> Null \<Longrightarrow> \<exists>t' m. remove_max t = Some (t', m)"
proof (induction t rule: node_induct)
  case Null
  then show ?case by simp
next
  case (Node d e h l r)
  show ?case
  proof (cases "r = Null")
    case True
    then show ?thesis by simp
  next
    case False
    then obtain r' m where 1: "remove_max r = Some (r', m)" using Node.IH(2) by blast
    obtain n' where "balance_node (Ptr (Node d (e - 1) h l r')) = Some (Ptr n')"
      using balance_node_total by blast
    then show ?thesis using False 1 by simp
  qed
qed

lemma depth_or_0_nonzero: "depth_or_0 t \<noteq> 0 \<Longrightarrow> t \<noteq> Null"
  by (auto simp: depth_or_0_def)

lemma remove_rec_total: "\<exists>t' v. remove_rec cmp t key val wd = Some (t', v, wd)"
proof (induction t rule: node_induct)
  case Null
  then show ?case by simp
next
  case (Node d e h l r)
  show ?case
  proof (cases "cmp d key")
    case True
    obtain r' v where 1: "remove_rec cmp r key val wd = Some (r', v, wd)" using Node.IH(2) by blast
    obtain n' where "balance_node (Ptr (Node d (if wd then e - 1 else e) h l r')) = Some (Ptr n')"
      using balance_node_total by blast
    then show ?thesis using True 1 by simp
  next
    case nr: False
    show ?thesis
    proof (cases "cmp key d")
      case True
      obtain l' v where 1: "remove_rec cmp l key val wd = Some (l', v, wd)" using Node.IH(1) by blast
      obtain n' where "balance_node (Ptr (Node d (if wd then e - 1 else e) h l' r)) = Some (Ptr n')"
        using balance_node_total by blast
      then show ?thesis using True nr 1 by simp
    next
      case False
      consider (leaf) "depth_or_0 r = 0 \<and> depth_or_0 l = 0"
        | (R) "\<not> (depth_or_0 r = 0 \<and> depth_or_0 l = 0)" "depth_or_0 l \<le> depth_or_0 r"
        | (L) "\<not> (depth_or_0 r = 0 \<and> depth_or_0 l = 0)" "\<not> depth_or_0 l \<le> depth_or_0 r" by blast
      then show ?thesis
      proof cases
        case leaf
        then show ?thesis using False nr by simp
      next
        case R
        then have "depth_or_0 r \<noteq> 0" by (auto simp: word_le_nat_alt unat_eq_0)
        then have "r \<noteq> Null" by (rule depth_or_0_nonzero)
        then obtain r' m where 1: "remove_min r = Some (r', m)" using remove_min_total by blast
        obtain n' where "balance_node (Ptr (Node m e h l r')) = Some (Ptr n')"
          using balance_node_total by blast
        then show ?thesis using False nr R 1 by (simp add: Let_def)
      next
        case L
        then have "depth_or_0 l \<noteq> 0" by auto
        then have "l \<noteq> Null" by (rule depth_or_0_nonzero)
        then obtain l' m where 1: "remove_max l = Some (l', m)" using remove_max_total by blast
        obtain n' where "balance_node (Ptr (Node m e h l' r)) = Some (Ptr n')"
          using balance_node_total by blast
        then show ?thesis using False nr L 1 by (simp add: Let_def)
      qed
    qed
  qed
qed

lemma remove_avl_element_count:
  "\<exists>v t'. remove_avl cmp dflt key t = Some (v, t') \<and> element_count t' = element_count t"
proof -
  obtain t' v where "remove_rec cmp (root t) key dflt False = Some (t', v, False)"
    using remove_rec_total[of cmp "root t" key dflt False] by blast
  then show ?thesis by (simp add: remove_avl_def)
qed

lemma get_Kth_out_of_range: "element_count t \<le> pos \<Longrightarrow> get_Kth dflt pos t = None"
  by (simp add: get_Kth_def)

lemma get_Kth_rec_result: "get_Kth_rec t k pos val \<in> set (val # inorder t)"
  by (induction t arbitrary: pos rule: node_induct) (auto simp del: get_Kth_rec.simps simp add: get_Kth_rec.simps[abs_def] split: if_splits)

subsection \<open>Concrete comparison functors, evaluation\<close>

lemma strict_weak_nat_less: "strict_weak ((<) :: nat \<Rightarrow> nat \<Rightarrow> bool)"
  by (auto simp: strict_weak_def)

lemma strict_weak_fst_less: "strict_weak (\<lambda>a b. fst a < (fst b :: nat))"
  by (auto simp: strict_weak_def)

lemmas avl_eval =
  insert_avl_def remove_avl_def get_Kth_def AVLTree_new_def balance_node_def rotate_left_def
  rotate_right_def balance_def update_depth_def update_elements_subtree_def in_left_subtree_def
  in_right_subtree_def depth_or_0_def set_depth_def set_elements_subtree_def set_left_def
  set_right_def Let_def

lemma sorted_bst_weak: "sorted_le cmp (inorder t) \<Longrightarrow> bst_weak cmp t"
  by (induction t rule: node_induct) (auto simp: sorted_le_append sorted_le_Cons list_all_iff)

section \<open>The claims\<close>


text \<open>
  Claim C1 (count consistency). The element count is to go down by one when a removal
  takes a node out. In \<open>remove_rec\<close> nothing ever sets \<open>was_deleted\<close>, so \<open>remove\<close>
  never decrements (\<open>remove_avl_element_count\<close>: the count is the same after every
  removal): after inserting 5 and removing it again the tree is empty and the element
  count is still 1.
\<close>

theorem C1_count_stays_after_removal:
  "exec (<) (0::nat) [Insert 5, Remove 5] AVLTree_new = Some \<lparr>root = Null, element_count = 1\<rparr>"
  by (simp add: insert_avl_def remove_avl_def AVLTree_new_def balance_node_def depth_or_0_def)

text \<open>
  Claim C2 (removal of an absent key), as amended. In every state reached by a sequence of
  insertions and removals (fewer than \<open>2 ^ 64\<close> insertions) and for every key that no
  stored element is equivalent to, \<open>remove\<close> leaves the container exactly as it was (the
  same nodes with the same fields, the same element count) and returns the
  default-initialised \<open>T\<close>. It returns nothing else: there is no found flag.
\<close>

theorem C2_absent_key_no_change:
  assumes "n_inserts ops < 2 ^ 64" "exec cmp dflt ops AVLTree_new = Some t"
    "\<forall>v\<in>set (inorder (root t)). \<not> equiv_under cmp v key"
  shows "remove_avl cmp dflt key t = Some (dflt, t)"
proof -
  have i: "invar t" using reachable_invar[OF assms(1), of cmp dflt] assms(2) by auto
  have f: "found cmp key (root t) = None" using assms(3) by (rule found_absent)
  have "del cmp key (root t) = root t" using i f by (intro del_unchanged) (simp_all add: invar_def)
  then show ?thesis using remove_avl_eq[OF i, of cmp dflt key] f by simp
qed

theorem C2_absent_key_no_change_witness:
  "n_inserts [Insert (5::nat), Insert 3, Insert 8] < 2 ^ 64 \<and>
   exec (<) 0 [Insert (5::nat), Insert 3, Insert 8] AVLTree_new =
     Some \<lparr>root = Ptr (Node 5 2 2 (Ptr (Node 3 0 1 Null Null)) (Ptr (Node 8 0 1 Null Null))), element_count = 3\<rparr> \<and>
   list_all (\<lambda>v. \<not> equiv_under (<) v 100)
     (inorder (Ptr (Node (5::nat) 2 2 (Ptr (Node 3 0 1 Null Null)) (Ptr (Node 8 0 1 Null Null))))) \<and>
   remove_avl (<) 0 100 \<lparr>root = Ptr (Node (5::nat) 2 2 (Ptr (Node 3 0 1 Null Null)) (Ptr (Node 8 0 1 Null Null))), element_count = 3\<rparr> =
     Some (0, \<lparr>root = Ptr (Node 5 2 2 (Ptr (Node 3 0 1 Null Null)) (Ptr (Node 8 0 1 Null Null))), element_count = 3\<rparr>)"
proof -
  have e: "exec (<) 0 [Insert (5::nat), Insert 3, Insert 8] AVLTree_new =
     Some \<lparr>root = Ptr (Node 5 2 2 (Ptr (Node 3 0 1 Null Null)) (Ptr (Node 8 0 1 Null Null))), element_count = 3\<rparr>"
    by (simp add: avl_eval)
  have a: "\<forall>v\<in>set (inorder (root \<lparr>root = Ptr (Node (5::nat) 2 2 (Ptr (Node 3 0 1 Null Null)) (Ptr (Node 8 0 1 Null Null))), element_count = 3\<rparr>)). \<not> equiv_under (<) v 100"
    by (simp add: equiv_under_def)
  have n: "n_inserts [Insert (5::nat), Insert 3, Insert 8] < 2 ^ 64" by simp
  show ?thesis using C2_absent_key_no_change[OF n e a] e a n by (simp add: equiv_under_def)
qed

text \<open>
  Claim C2 as the specification states it asks for a not-found indication that differs
  from every removed value. \<open>remove\<close> returns a \<open>T\<close> only: on the tree that holds 0,
  removing the absent key 7 and removing the present key 0 both return 0 (for an element
  type whose default-initialised value is 0).
\<close>

theorem C2_no_found_flag_counterexample:
  "remove_avl (<) (0::nat) 7 \<lparr>root = Ptr (Node 0 0 1 Null Null), element_count = 1\<rparr> =
     Some (0, \<lparr>root = Ptr (Node 0 0 1 Null Null), element_count = 1\<rparr>) \<and>
   remove_avl (<) (0::nat) 0 \<lparr>root = Ptr (Node 0 0 1 Null Null), element_count = 1\<rparr> =
     Some (0, \<lparr>root = Null, element_count = 1\<rparr>) \<and>
   exec (<) (0::nat) [Insert 0] AVLTree_new = Some \<lparr>root = Ptr (Node 0 0 1 Null Null), element_count = 1\<rparr>"
  by (simp add: avl_eval)

text \<open>
  Claim C3 (removal of a present key), as amended. For a strict weak ordering, in every
  state reached by a sequence of insertions and removals (fewer than \<open>2 ^ 64\<close>
  insertions) that holds an element equivalent to the key, \<open>remove\<close> takes out exactly one
  element equivalent to the key, namely the first one met on the way down from the root,
  and returns a copy of it; the in-order sequence afterwards is the one before with that
  one element excised: with \<open>i\<close> the in-order position of that first match
  (\<open>found_index\<close>), the element at position \<open>i\<close> is the one returned, and the sequence
  afterwards is the first \<open>i\<close> elements followed by those behind position \<open>i\<close>.
\<close>

theorem C3_remove_one_match:
  assumes "strict_weak cmp" "n_inserts ops < 2 ^ 64" "exec cmp dflt ops AVLTree_new = Some t"
    "\<exists>v\<in>set (inorder (root t)). equiv_under cmp v key"
  shows "\<exists>v t' i. remove_avl cmp dflt key t = Some (v, t') \<and> equiv_under cmp v key \<and>
           found cmp key (root t) = Some v \<and> excise (inorder (root t)) v (inorder (root t')) \<and>
           found_index cmp key (root t) = Some i \<and> i < length (inorder (root t)) \<and>
           inorder (root t) ! i = v \<and>
           inorder (root t') = take i (inorder (root t)) @ drop (Suc i) (inorder (root t))"
proof -
  have i: "invar t" using reachable_invar[OF assms(2), of cmp dflt] assms(3) by auto
  have o: "sorted_le cmp (inorder (root t))"
    using reachable_ordered[OF assms(1,2,3)] by (simp add: ordered_def)
  obtain v where v: "found cmp key (root t) = Some v"
    using found_present[OF assms(1) o assms(4)] by auto
  obtain k where k: "found_index cmp key (root t) = Some k"
    using found_index_present[OF v] by blast
  let ?t' = "\<lparr>root = del cmp key (root t), element_count = element_count t\<rparr>"
  have 1: "remove_avl cmp dflt key t = Some (v, ?t')"
    using remove_avl_eq[OF i, of cmp dflt key] v by simp
  have 2: "equiv_under cmp v key" using found_equiv[OF v] by simp
  have 3: "excise (inorder (root t)) v (inorder (root ?t'))" using inorder_del[OF v] by simp
  have 4: "k < length (inorder (root t))" using found_index_lt[OF k] by simp
  have 5: "inorder (root t) ! k = v" using found_index_found[OF k] v by simp
  have 6: "inorder (root ?t') = take k (inorder (root t)) @ drop (Suc k) (inorder (root t))"
    using inorder_del_index[OF k] by simp
  show ?thesis using 1 2 v 3 k 4 5 6 by blast
qed

theorem C3_remove_one_match_witness:
  "strict_weak (\<lambda>a b. fst a < (fst b :: nat)) \<and>
   n_inserts [Insert (3::nat, 0::nat), Insert (2, 0), Insert (3, 1), Insert (3, 0)] < 2 ^ 64 \<and>
   exec (\<lambda>a b. fst a < fst b) (0, 0) [Insert (3::nat, 0::nat), Insert (2, 0), Insert (3, 1), Insert (3, 0)] AVLTree_new =
     Some \<lparr>root = Ptr (Node (3, 0) 3 3 (Ptr (Node (2, 0) 0 1 Null Null))
                        (Ptr (Node (3, 1) 1 2 Null (Ptr (Node (3, 0) 0 1 Null Null))))),
           element_count = 4\<rparr> \<and>
   inorder (Ptr (Node (3::nat, 0::nat) 3 3 (Ptr (Node (2, 0) 0 1 Null Null))
                        (Ptr (Node (3, 1) 1 2 Null (Ptr (Node (3, 0) 0 1 Null Null)))))) =
     [(2, 0), (3, 0), (3, 1), (3, 0)] \<and>
   (\<exists>v\<in>set [(2::nat, 0::nat), (3, 0), (3, 1), (3, 0)]. equiv_under (\<lambda>a b. fst a < fst b) v (3, 9)) \<and>
   remove_avl (\<lambda>a b. fst a < fst b) (0, 0) (3, 9)
       \<lparr>root = Ptr (Node (3::nat, 0::nat) 3 3 (Ptr (Node (2, 0) 0 1 Null Null))
                        (Ptr (Node (3, 1) 1 2 Null (Ptr (Node (3, 0) 0 1 Null Null))))),
        element_count = 4\<rparr> =
     Some ((3, 0), \<lparr>root = Ptr (Node (3, 1) 2 2 (Ptr (Node (2, 0) 0 1 Null Null)) (Ptr (Node (3, 0) 0 1 Null Null))),
                    element_count = 4\<rparr>) \<and>
   equiv_under (\<lambda>a b. fst a < fst b) (3::nat, 0::nat) (3, 9) \<and>
   found_index (\<lambda>a b. fst a < fst b) (3, 9)
       (Ptr (Node (3::nat, 0::nat) 3 3 (Ptr (Node (2, 0) 0 1 Null Null))
                        (Ptr (Node (3, 1) 1 2 Null (Ptr (Node (3, 0) 0 1 Null Null)))))) = Some 1 \<and>
   inorder (Ptr (Node (3::nat, 1::nat) 2 2 (Ptr (Node (2, 0) 0 1 Null Null)) (Ptr (Node (3, 0) 0 1 Null Null)))) =
     take 1 [(2, 0), (3, 0), (3, 1), (3, 0)] @ drop (Suc 1) [(2, 0), (3, 0), (3, 1), (3, 0)] \<and>
   excise [(2::nat, 0::nat), (3, 0), (3, 1), (3, 0)] (3, 0) [(2, 0), (3, 1), (3, 0)]"
proof -
  let ?c = "\<lambda>a b. fst a < (fst b :: nat)"
  let ?t = "\<lparr>root = Ptr (Node (3::nat, 0::nat) 3 3 (Ptr (Node (2, 0) 0 1 Null Null))
                        (Ptr (Node (3, 1) 1 2 Null (Ptr (Node (3, 0) 0 1 Null Null))))),
           element_count = 4\<rparr>"
  let ?t' = "\<lparr>root = Ptr (Node (3::nat, 1::nat) 2 2 (Ptr (Node (2, 0) 0 1 Null Null)) (Ptr (Node (3, 0) 0 1 Null Null))),
                    element_count = 4\<rparr>"
  have n: "n_inserts [Insert (3::nat, 0::nat), Insert (2, 0), Insert (3, 1), Insert (3, 0)] < 2 ^ 64" by simp
  have e: "exec ?c (0, 0) [Insert (3::nat, 0::nat), Insert (2, 0), Insert (3, 1), Insert (3, 0)] AVLTree_new = Some ?t"
    by (simp add: avl_eval)
  have p: "\<exists>v\<in>set (inorder (root ?t)). equiv_under ?c v (3, 9)"
    by (simp add: equiv_under_def)
  obtain v t' i where r: "remove_avl ?c (0, 0) (3, 9) ?t = Some (v, t')" "equiv_under ?c v (3, 9)"
      "excise (inorder (root ?t)) v (inorder (root t'))"
      "found_index ?c (3, 9) (root ?t) = Some i"
      "inorder (root t') = take i (inorder (root ?t)) @ drop (Suc i) (inorder (root ?t))"
    using C3_remove_one_match[OF strict_weak_fst_less n e p] by blast
  have ev: "remove_avl ?c (0, 0) (3, 9) ?t = Some ((3, 0), ?t')"
    by (simp add: avl_eval)
  have fi: "found_index ?c (3, 9) (root ?t) = Some 1" by simp
  have eq: "Some (v, t') = Some ((3, 0), ?t')" by (rule trans[OF sym[OF r(1)] ev])
  have v: "v = (3, 0)" using eq by auto
  have t': "t' = ?t'" using eq by auto
  have i: "Some i = Some 1" by (rule trans[OF sym[OF r(4)] fi])
  then have i: "i = 1" by auto
  show ?thesis using r(2,3,5) strict_weak_fst_less n e ev fi unfolding i v t'
    by (simp add: equiv_under_def)
qed

text \<open>
  Claim C3 as the specification states it says that the left-most of several equivalent
  elements is removed. With the elements compared by their first component only, the tree
  built from \<open>(3, 0)\<close>, \<open>(3, 1)\<close>, \<open>(3, 2)\<close> has \<open>(3, 1)\<close> at the root, and removing the
  key 3 returns \<open>(3, 1)\<close> and leaves \<open>(3, 0)\<close>, the left-most one, in the tree.
\<close>

theorem C3_not_leftmost_counterexample:
  "exec (\<lambda>a b. fst a < fst b) (0, 0) [Insert (3::nat, 0::nat), Insert (3, 1), Insert (3, 2)] AVLTree_new =
     Some \<lparr>root = Ptr (Node (3, 1) 2 2 (Ptr (Node (3, 0) 0 1 Null Null)) (Ptr (Node (3, 2) 0 1 Null Null))),
           element_count = 3\<rparr> \<and>
   inorder (Ptr (Node (3::nat, 1::nat) 2 2 (Ptr (Node (3, 0) 0 1 Null Null)) (Ptr (Node (3, 2) 0 1 Null Null)))) =
     [(3, 0), (3, 1), (3, 2)] \<and>
   remove_avl (\<lambda>a b. fst a < fst b) (0, 0) (3, 9)
       \<lparr>root = Ptr (Node (3::nat, 1::nat) 2 2 (Ptr (Node (3, 0) 0 1 Null Null)) (Ptr (Node (3, 2) 0 1 Null Null))),
        element_count = 3\<rparr> =
     Some ((3, 1), \<lparr>root = Ptr (Node (3, 2) 1 2 (Ptr (Node (3, 0) 0 1 Null Null)) Null), element_count = 3\<rparr>) \<and>
   inorder (Ptr (Node (3::nat, 2::nat) 1 2 (Ptr (Node (3, 0) 0 1 Null Null)) Null)) = [(3, 0), (3, 2)]"
  by (simp add: avl_eval)

text \<open>
  Claim C4 (rank returned by insert). For a strict weak ordering, in every state reached
  by a sequence of insertions and removals that leaves room for one more insertion, the
  rank that \<open>insert\<close> returns is the number of stored elements that are not greater than
  the new element, and \<open>get_Kth\<close> with that rank, called right after, returns the new
  element.
\<close>

theorem C4_insert_rank:
  assumes "strict_weak cmp" "n_inserts ops < 2 ^ 64 - 1" "exec cmp dflt ops AVLTree_new = Some t"
  shows "\<exists>rank t'. insert_avl cmp x t = Some (rank, t') \<and>
           unat rank = length (filter (\<lambda>y. \<not> cmp x y) (inorder (root t))) \<and>
           get_Kth dflt rank t' = Some x"
proof -
  have n: "n_inserts ops < 2 ^ 64" using assms(2) by simp
  have i: "invar t" and c: "unat (element_count t) = n_inserts ops"
    using reachable_invar[OF n, of cmp dflt] assms(3) by auto
  have o: "sorted_le cmp (inorder (root t))"
    using reachable_ordered[OF assms(1) n assms(3)] by (simp add: ordered_def)
  let ?k = "rank_of cmp x (root t)"
  let ?t' = "\<lparr>root = ins cmp x (root t), element_count = element_count t + 1\<rparr>"
  have 1: "insert_avl cmp x t = Some (of_nat ?k, ?t')" using i by (rule insert_avl_eq)
  have k: "?k = length (filter (\<lambda>y. \<not> cmp x y) (inorder (root t)))"
    using rank_of_sorted[OF assms(1) o, of x] filter_eq_takeWhile_sorted[OF assms(1) o, of x] by simp
  have kb: "?k \<le> count_nodes (root t)" by (rule rank_of_le)
  have cb: "count_nodes (root t) \<le> unat (element_count t)" using i by (simp add: invar_def)
  have 2: "unat (of_nat ?k :: size_t) = ?k" using kb cb c assms(2) by (intro unat64) simp
  have i': "invar ?t'" using i c assms(2) by (intro insert_avl_invar) simp_all
  have "get_Kth dflt (of_nat ?k) ?t' = Some (inorder (root ?t') ! ?k)"
    using i' kb by (intro get_Kth_in_range) (simp_all add: invar_def)
  then have 3: "get_Kth dflt (of_nat ?k) ?t' = Some x" by (simp add: nth_ins)
  show ?thesis using 1 2 3 k by simp
qed

theorem C4_insert_rank_witness:
  "strict_weak ((<) :: nat \<Rightarrow> nat \<Rightarrow> bool) \<and> n_inserts [Insert (5::nat), Insert 3, Insert 8] < 2 ^ 64 - 1 \<and>
   exec (<) 0 [Insert (5::nat), Insert 3, Insert 8] AVLTree_new =
     Some \<lparr>root = Ptr (Node 5 2 2 (Ptr (Node 3 0 1 Null Null)) (Ptr (Node 8 0 1 Null Null))), element_count = 3\<rparr> \<and>
   insert_avl (<) 5 \<lparr>root = Ptr (Node (5::nat) 2 2 (Ptr (Node 3 0 1 Null Null)) (Ptr (Node 8 0 1 Null Null))), element_count = 3\<rparr> =
     Some (2, \<lparr>root = Ptr (Node 5 3 3 (Ptr (Node 3 0 1 Null Null)) (Ptr (Node 8 1 2 (Ptr (Node 5 0 1 Null Null)) Null))),
               element_count = 4\<rparr>) \<and>
   unat (2 :: size_t) = length (filter (\<lambda>y. \<not> 5 < y) [3, 5, 8 :: nat]) \<and>
   get_Kth 0 2 \<lparr>root = Ptr (Node (5::nat) 3 3 (Ptr (Node 3 0 1 Null Null)) (Ptr (Node 8 1 2 (Ptr (Node 5 0 1 Null Null)) Null))),
                element_count = 4\<rparr> = Some 5"
proof -
  let ?t = "\<lparr>root = Ptr (Node (5::nat) 2 2 (Ptr (Node 3 0 1 Null Null)) (Ptr (Node 8 0 1 Null Null))), element_count = 3\<rparr>"
  let ?t' = "\<lparr>root = Ptr (Node (5::nat) 3 3 (Ptr (Node 3 0 1 Null Null)) (Ptr (Node 8 1 2 (Ptr (Node 5 0 1 Null Null)) Null))),
               element_count = 4\<rparr>"
  have n: "n_inserts [Insert (5::nat), Insert 3, Insert 8] < 2 ^ 64 - 1" by simp
  have e: "exec (<) 0 [Insert (5::nat), Insert 3, Insert 8] AVLTree_new = Some ?t"
    by (simp add: avl_eval)
  obtain rank t' where r: "insert_avl (<) 5 ?t = Some (rank, t')"
      "unat rank = length (filter (\<lambda>y. \<not> 5 < y) (inorder (root ?t)))" "get_Kth 0 rank t' = Some 5"
    using C4_insert_rank[OF strict_weak_nat_less n e, of 5] by blast
  have ev: "insert_avl (<) 5 ?t = Some (2, ?t')" by (simp add: avl_eval)
  have "rank = 2" "t' = ?t'" using r(1) ev by simp_all
  then show ?thesis using r strict_weak_nat_less n e by simp
qed

text \<open>
  Claim C5 (order statistics after insertions). For a strict weak ordering and every
  sequence \<open>xs\<close> of fewer than \<open>2 ^ 64\<close> elements inserted into the empty tree, \<open>get_Kth\<close>
  with a rank \<open>r\<close> below the number of elements returns the element at position \<open>r\<close> of
  the stably sorted sequence: the \<open>r\<close>-th smallest, elements with equivalent keys in
  the order of their insertion. \<open>stable_sort\<close> is that sequence: it is sorted
  (\<open>sorted_stable_sort\<close>), it holds the inserted elements (\<open>mset_stable_sort\<close>), and it
  lists the elements equivalent to any key in the order of \<open>xs\<close> (\<open>stable_sort_stable\<close>).
\<close>

theorem C5_get_Kth_order_statistic:
  assumes "strict_weak cmp" "length xs < 2 ^ 64" "r < length xs"
  shows "\<exists>t. exec cmp dflt (map Insert xs) AVLTree_new = Some t \<and>
             get_Kth dflt (of_nat r) t = Some (stable_sort cmp xs ! r)"
proof -
  obtain t where t: "exec cmp dflt (map Insert xs) AVLTree_new = Some t" "invar t"
      "inorder (root t) = stable_sort cmp xs"
    using exec_inserts[OF assms(1) invar_new ordered_new, of xs dflt] assms(2)
    by (auto simp: AVLTree_new_def stable_sort_def)
  have "count_nodes (root t) = length xs"
    using t(3) length_inorder[of "root t"] by simp
  then have "get_Kth dflt (of_nat r) t = Some (inorder (root t) ! r)"
    using t(2) assms(3) by (intro get_Kth_in_range) (simp_all add: invar_def)
  then show ?thesis using t by simp
qed

theorem C5_get_Kth_order_statistic_witness:
  "strict_weak (\<lambda>a b. fst a < (fst b :: nat)) \<and>
   length [(5::nat, 0::nat), (3, 1), (5, 2), (3, 3), (5, 4)] < 2 ^ 64 \<and> (3::nat) < length [(5::nat, 0::nat), (3, 1), (5, 2), (3, 3), (5, 4)] \<and>
   stable_sort (\<lambda>a b. fst a < fst b) [(5::nat, 0::nat), (3, 1), (5, 2), (3, 3), (5, 4)] = [(3, 1), (3, 3), (5, 0), (5, 2), (5, 4)] \<and>
   (\<exists>t. exec (\<lambda>a b. fst a < fst b) (0, 0) (map Insert [(5::nat, 0::nat), (3, 1), (5, 2), (3, 3), (5, 4)]) AVLTree_new = Some t \<and>
        get_Kth (0, 0) 3 t = Some (5, 2))"
proof -
  have s: "stable_sort (\<lambda>a b. fst a < fst b) [(5::nat, 0::nat), (3, 1), (5, 2), (3, 3), (5, 4)] = [(3, 1), (3, 3), (5, 0), (5, 2), (5, 4)]"
    by (simp add: stable_sort_def)
  show ?thesis
    using C5_get_Kth_order_statistic[OF strict_weak_fst_less, of "[(5::nat, 0::nat), (3, 1), (5, 2), (3, 3), (5, 4)]" 3 "(0, 0)"]
      strict_weak_fst_less s by simp
qed

text \<open>
  Claim C6 (balance invariant). After every sequence of insertions and removals, started on
  the empty tree, the operations have all returned, and in the tree they leave the heights
  of the two subtrees of every node differ by at most one; the field \<open>depth\<close> of every node
  is the height of its subtree, so this is the difference \<open>balance\<close> computes. The
  sequence holds fewer than \<open>2 ^ 64\<close> insertions: a tree of more nodes does not fit the
  address space that \<open>size_t\<close> counts.
\<close>

theorem C6_balance_invariant:
  assumes "n_inserts ops < 2 ^ 64"
  shows "\<exists>t. exec cmp dflt ops AVLTree_new = Some t \<and> avl (root t) \<and> depth_ok (root t)"
proof -
  obtain t where t: "exec cmp dflt ops AVLTree_new = Some t" "invar t"
    using reachable_invar[OF assms] by blast
  have "height (root t) < 256" using invar_height[OF t(2)] by simp
  then have "depth_ok (root t)" using t(2) by (intro canon_depth_ok) (simp_all add: invar_def)
  then show ?thesis using t by (auto simp: invar_def)
qed

theorem C6_balance_invariant_witness:
  "n_inserts [Insert 5, Insert 3, Insert 8, Insert 1, Insert 4, Insert 7, Insert 9, Remove 8] < 2 ^ 64 \<and>
   exec (<) (0::nat) [Insert 5, Insert 3, Insert 8, Insert 1, Insert 4, Insert 7, Insert 9, Remove 8] AVLTree_new =
     Some \<lparr>root = Ptr (Node 5 5 3
                    (Ptr (Node 3 2 2 (Ptr (Node 1 0 1 Null Null)) (Ptr (Node 4 0 1 Null Null))))
                    (Ptr (Node 9 1 2 (Ptr (Node 7 0 1 Null Null)) Null))),
           element_count = 7\<rparr> \<and>
   avl (Ptr (Node (5::nat) 5 3
          (Ptr (Node 3 2 2 (Ptr (Node 1 0 1 Null Null)) (Ptr (Node 4 0 1 Null Null))))
          (Ptr (Node 9 1 2 (Ptr (Node 7 0 1 Null Null)) Null)))) \<and>
   depth_ok (Ptr (Node (5::nat) 5 3
          (Ptr (Node 3 2 2 (Ptr (Node 1 0 1 Null Null)) (Ptr (Node 4 0 1 Null Null))))
          (Ptr (Node 9 1 2 (Ptr (Node 7 0 1 Null Null)) Null))))"
  using C6_balance_invariant[of "[Insert 5, Insert 3, Insert 8, Insert 1, Insert 4, Insert 7, Insert 9, Remove 8]" "(<)" "0::nat"]
  by (simp add: avl_eval)

text \<open>
  Claim C7 (size invariant). After every sequence of insertions and removals (fewer than
  \<open>2 ^ 64\<close> insertions), the field \<open>elements_subtree\<close> of every node is the number of nodes
  of its subtree minus one, and it is the sum of \<open>in_left_subtree\<close> and
  \<open>in_right_subtree\<close>, where a child \<open>c\<close> counts \<open>c.elements_subtree + 1\<close> and an
  absent child counts 0.
\<close>

theorem C7_size_invariant:
  assumes "n_inserts ops < 2 ^ 64"
  shows "\<exists>t. exec cmp dflt ops AVLTree_new = Some t \<and> size_ok (root t)"
proof -
  obtain t where t: "exec cmp dflt ops AVLTree_new = Some t" "invar t"
    using reachable_invar[OF assms] by blast
  have "unat (element_count t) < 2 ^ 64"
    using unsigned_less[of "element_count t", where ?'a=nat] by simp
  then have "count_nodes (root t) \<le> 2 ^ 64" using t(2) by (simp add: invar_def)
  then have "size_ok (root t)" using t(2) by (intro canon_size_ok) (simp_all add: invar_def)
  then show ?thesis using t by auto
qed

theorem C7_size_invariant_witness:
  "n_inserts [Insert 5, Insert 3, Insert 8, Remove 3] < 2 ^ 64 \<and>
   exec (<) (0::nat) [Insert 5, Insert 3, Insert 8, Remove 3] AVLTree_new =
     Some \<lparr>root = Ptr (Node 5 1 2 Null (Ptr (Node 8 0 1 Null Null))), element_count = 3\<rparr> \<and>
   size_ok (Ptr (Node (5::nat) 1 2 Null (Ptr (Node 8 0 1 Null Null))))"
  using C7_size_invariant[of "[Insert 5, Insert 3, Insert 8, Remove 3]" "(<)" "0::nat"]
  by (simp add: avl_eval)

text \<open>
  Claim C8 (order invariant), as amended. For a comparison that is a strict weak ordering,
  after every sequence of insertions and removals (fewer than \<open>2 ^ 64\<close> insertions) no key
  of the left subtree of a node is greater than the key of the node, and no key of its
  right subtree is less. Keys equivalent to the key of the node occur on both sides.
\<close>

theorem C8_order_invariant_weak:
  assumes "strict_weak cmp" "n_inserts ops < 2 ^ 64"
  shows "\<exists>t. exec cmp dflt ops AVLTree_new = Some t \<and> bst_weak cmp (root t)"
proof -
  obtain t where t: "exec cmp dflt ops AVLTree_new = Some t"
    using reachable_invar[OF assms(2)] by blast
  have "ordered cmp t" using assms t by (rule reachable_ordered)
  then show ?thesis using t by (auto simp: ordered_def sorted_bst_weak)
qed

theorem C8_order_invariant_weak_witness:
  "strict_weak ((<) :: nat \<Rightarrow> nat \<Rightarrow> bool) \<and> n_inserts [Insert (3::nat), Insert 3, Insert 3] < 2 ^ 64 \<and>
   (\<exists>t. exec (<) (0::nat) [Insert 3, Insert 3, Insert 3] AVLTree_new = Some t \<and> bst_weak (<) (root t))"
  using C8_order_invariant_weak[OF strict_weak_nat_less, of "[Insert 3, Insert 3, Insert 3]" "0::nat"]
  by (simp add: strict_weak_nat_less)

text \<open>
  Claim C8 as the specification states it (the keys of the left subtree strictly less) fails:
  the third of three equal keys makes \<open>rotate_left\<close> lift the second one to the root, and
  the first one, which is not less, becomes its left child.
\<close>

theorem C8_strict_order_counterexample:
  "exec (<) (0::nat) [Insert 3, Insert 3, Insert 3] AVLTree_new =
     Some \<lparr>root = Ptr (Node 3 2 2 (Ptr (Node 3 0 1 Null Null)) (Ptr (Node 3 0 1 Null Null))),
           element_count = 3\<rparr> \<and>
   \<not> bst (<) (Ptr (Node (3::nat) 2 2 (Ptr (Node 3 0 1 Null Null)) (Ptr (Node 3 0 1 Null Null))))"
  by (simp add: avl_eval)

text \<open>
  Claim C9 (contract of \<open>get_Kth\<close>). A rank below the element count is to lead the
  descent to a node. The element count is the one that \<open>remove\<close> never decrements (see
  C1): after inserting 5 and removing it, the count is 1 and the tree is empty, so
  \<open>get_Kth(0)\<close> passes the assertion, \<open>get_Kth_rec\<close> takes its null branch at once, and
  the default-initialised \<open>value\<close> is returned.
\<close>

theorem C9_null_branch_reached:
  "exec (<) (0::nat) [Insert 5, Remove 5] AVLTree_new = Some \<lparr>root = Null, element_count = 1\<rparr> \<and>
   get_Kth (0::nat) 0 \<lparr>root = Null, element_count = 1\<rparr> = Some 0"
  by (simp add: avl_eval)

text \<open>
  Claim C10 (termination). \<open>insert_rec\<close>, \<open>remove_rec\<close>, \<open>get_Kth_rec\<close>, \<open>remove_min\<close>
  and \<open>remove_max\<close> are defined by recursion on the subtrees of their argument, and on
  every tree, whatever its fields hold, they return: no assertion of \<open>balance_node\<close> or of
  the rotations fails and no null pointer is dereferenced (\<open>remove_min\<close> and \<open>remove_max\<close>
  are called on a node). \<open>get_Kth_rec\<close> returns the value it was given or an element of
  the tree. So \<open>insert\<close> and \<open>remove\<close> return on every container.
\<close>

theorem C10_operations_return:
  "(\<exists>res. insert_rec cmp t x pos = Some res) \<and>
   (\<exists>res. remove_rec cmp t key val wd = Some res) \<and>
   (t \<noteq> Null \<longrightarrow> (\<exists>res. remove_min t = Some res) \<and> (\<exists>res. remove_max t = Some res)) \<and>
   get_Kth_rec t k pos val \<in> set (val # inorder t) \<and>
   (\<exists>res. insert_avl cmp x s = Some res) \<and>
   (\<exists>res. remove_avl cmp dflt key s = Some res)"
proof -
  have 1: "\<exists>res. insert_rec cmp t x pos = Some res" using insert_rec_total[of cmp t x pos] by blast
  have 2: "\<exists>res. remove_rec cmp t key val wd = Some res" using remove_rec_total[of cmp t key val wd] by blast
  have 3: "t \<noteq> Null \<longrightarrow> (\<exists>res. remove_min t = Some res) \<and> (\<exists>res. remove_max t = Some res)"
    using remove_min_total[of t] remove_max_total[of t] by blast
  obtain n p where "insert_rec cmp (root s) x 0 = Some (Ptr n, p)"
    using insert_rec_total[of cmp "root s" x 0] by blast
  then have 4: "\<exists>res. insert_avl cmp x s = Some res" by (simp add: insert_avl_def)
  obtain t' v where "remove_rec cmp (root s) key dflt False = Some (t', v, False)"
    using remove_rec_total[of cmp "root s" key dflt False] by blast
  then have 5: "\<exists>res. remove_avl cmp dflt key s = Some res" by (simp add: remove_avl_def)
  have 6: "get_Kth_rec t k pos val \<in> set (val # inorder t)" by (rule get_Kth_rec_result)
  show ?thesis by (intro conjI 1 2 3 4 5 6)
qed

theorem C10_operations_return_witness:
  "Ptr (Node (5::nat) 0 1 Null Null) \<noteq> Null \<and>
   (\<exists>res. remove_min (Ptr (Node (5::nat) 0 1 Null Null)) = Some res) \<and>
   (\<exists>res. remove_max (Ptr (Node (5::nat) 0 1 Null Null)) = Some res)"
  using C10_operations_return[of "(<)" "Ptr (Node (5::nat) 0 1 Null Null)" 3 0 5 0 False 0 "AVLTree_new" 0]
  by simp

end
